theory Spec2Isabelle
  imports Main "HOL-Library.Word"
begin

section \<open>Data model (types.hpp, order_book.hpp, metrics.hpp)\<close>

text \<open>
  Prices and quantities are \<^verbatim>\<open>std::int64_t\<close>, identifiers and time stamps are
  \<^verbatim>\<open>std::uint64_t\<close>. Both are 64-bit words here; the signed fields are compared with
  the signed orders \<open><s\<close> and \<open>\<le>s\<close>, and their arithmetic is two's complement
  (it wraps around, which is what the compiled code does where the C++ standard
  leaves signed overflow undefined).
\<close>

type_synonym i64 = "64 word"
type_synonym u64 = "64 word"

datatype Side = Buy | Sell

record Trade =
  taker_id :: u64
  maker_id :: u64
  price :: i64
  qty :: i64

record Order =
  id' :: u64
  side :: Side
  price :: i64
  qty :: i64
  ts_ns :: u64

record PriceLevel =
  orders :: "Order list"
  total_qty :: i64

text \<open>
  A \<^verbatim>\<open>std::map<std::int64_t, PriceLevel, Cmp>\<close> is the list of its entries in
  iteration order: \<^verbatim>\<open>begin()\<close> is the head, \<^verbatim>\<open>erase(begin())\<close> the tail.
\<close>

type_synonym LevelMap = "(i64 \<times> PriceLevel) list"

record OrderBook =
  bids :: LevelMap
  asks :: LevelMap

text \<open>
  \<^verbatim>\<open>LatencyStats\<close>: the samples with their running minimum and maximum. The
  \<^verbatim>\<open>long double\<close> accumulator \<^verbatim>\<open>sum_\<close> is floating point and is left out; nothing
  in the book or the trades reads it.
\<close>

record LatencyStats =
  samples :: "u64 list"
  min_sample :: u64
  max_sample :: u64

record MatchingEngine =
  book :: OrderBook
  latency :: LatencyStats

section \<open>The ordered maps\<close>

text \<open>The comparators: \<^verbatim>\<open>std::greater<>\<close> for the bids, \<^verbatim>\<open>std::less<>\<close> for the asks.\<close>

definition cmp_bids :: "i64 \<Rightarrow> i64 \<Rightarrow> bool" where
  "cmp_bids a b = (b <s a)"

definition cmp_asks :: "i64 \<Rightarrow> i64 \<Rightarrow> bool" where
  "cmp_asks a b = (a <s b)"

definition empty_level :: PriceLevel where
  "empty_level = \<lparr>orders = [], total_qty = 0\<rparr>"

text \<open>
  \<^verbatim>\<open>auto& level = book[k]\<close> followed by an update \<open>f\<close> of that level:
  \<^verbatim>\<open>operator[]\<close> finds the entry whose key is equivalent to \<open>k\<close> under the
  comparator, or inserts a value-initialised level at its place in the order.
\<close>

fun map_index :: "(i64 \<Rightarrow> i64 \<Rightarrow> bool) \<Rightarrow> i64 \<Rightarrow> (PriceLevel \<Rightarrow> PriceLevel) \<Rightarrow> LevelMap \<Rightarrow> LevelMap" where
  "map_index cmp k f [] = [(k, f empty_level)]"
| "map_index cmp k f ((k', v) # m) =
     (if cmp k k' then (k, f empty_level) # (k', v) # m
      else if cmp k' k then (k', v) # map_index cmp k f m
      else (k', f v) # m)"

section \<open>OrderBook::add\<close>

definition insert_order :: "(i64 \<Rightarrow> i64 \<Rightarrow> bool) \<Rightarrow> LevelMap \<Rightarrow> Order \<Rightarrow> LevelMap" where
  "insert_order cmp m ord =
     map_index cmp (Order.price ord)
       (\<lambda>level. level\<lparr>total_qty := total_qty level + Order.qty ord,
                       orders := orders level @ [ord]\<rparr>) m"

definition add :: "OrderBook \<Rightarrow> Order \<Rightarrow> OrderBook" where
  "add b ord =
     (if side ord = Buy then b\<lparr>bids := insert_order cmp_bids (bids b) ord\<rparr>
      else b\<lparr>asks := insert_order cmp_asks (asks b) ord\<rparr>)"

section \<open>OrderBook::match\<close>

text \<open>\<^verbatim>\<open>std::min(a, b)\<close> on \<^verbatim>\<open>int64_t\<close>: \<^verbatim>\<open>(b < a) ? b : a\<close>.\<close>

definition std_min :: "i64 \<Rightarrow> i64 \<Rightarrow> i64" where
  "std_min a b = (if b <s a then b else a)"

text \<open>
  One pass of the body of the inner loop: the taker \<open>incoming\<close> against the maker at
  the front of the level whose key is \<open>p\<close>. The caller has checked that the level
  has a front order; \<open>rest\<close> is the queue behind it.
\<close>

definition fill_front :: "Order \<Rightarrow> i64 \<Rightarrow> PriceLevel \<Rightarrow> Order \<Rightarrow> Order list \<Rightarrow> Trade list
    \<Rightarrow> Order \<times> PriceLevel \<times> Trade list" where
  "fill_front incoming p level maker rest trades =
     (let exec_qty = std_min (Order.qty incoming) (Order.qty maker);
          incoming' = incoming\<lparr>Order.qty := Order.qty incoming - exec_qty\<rparr>;
          maker' = maker\<lparr>Order.qty := Order.qty maker - exec_qty\<rparr>;
          level' = level\<lparr>total_qty := total_qty level - exec_qty\<rparr>;
          trades' = trades @ [\<lparr>taker_id = id' incoming, maker_id = id' maker,
                               Trade.price = p, Trade.qty = exec_qty\<rparr>]
      in if Order.qty maker' = 0 then (incoming', level'\<lparr>orders := rest\<rparr>, trades')
         else (incoming', level'\<lparr>orders := maker' # rest\<rparr>, trades'))"

text \<open>The measure of the loops: the entries still queued, and whether the taker is live.\<close>

definition live :: "Order \<Rightarrow> nat" where
  "live incoming = (if 0 <s Order.qty incoming then 1 else 0)"

text \<open>
  The inner loop
  \<^verbatim>\<open>while (incoming.qty > 0 && !level.orders.empty()) { ... }\<close>.
  It ends because a pass either pops the front maker or leaves the taker at zero.
\<close>

function walk_level :: "Order \<Rightarrow> i64 \<Rightarrow> PriceLevel \<Rightarrow> Trade list \<Rightarrow> Order \<times> PriceLevel \<times> Trade list" where
  "walk_level incoming p level trades =
     (if 0 <s Order.qty incoming \<and> orders level \<noteq> [] then
        (case fill_front incoming p level (hd (orders level)) (tl (orders level)) trades of
           (incoming', level', trades') \<Rightarrow> walk_level incoming' p level' trades')
      else (incoming, level, trades))"
  by pat_completeness auto
termination
proof (relation "measure (\<lambda>(incoming, p, level, trades). 2 * length (orders level) + live incoming)",
    goal_cases)
  case 1
  show ?case by simp
next
  case (2 incoming p level trades incoming' y level' trades')
  let ?maker = "hd (orders level)"
  let ?exec = "std_min (Order.qty incoming) (Order.qty ?maker)"
  from 2 have c: "0 <s Order.qty incoming" "orders level \<noteq> []"
    and ff: "fill_front incoming p level ?maker (tl (orders level)) trades
      = (incoming', level', trades')"
    by simp_all
  have "2 * length (orders level') + live incoming' < 2 * length (orders level) + live incoming"
  proof (cases "Order.qty ?maker - ?exec = 0")
    case True
    with ff c show ?thesis
      by (auto simp: fill_front_def Let_def live_def)
  next
    case False
    then have "?exec = Order.qty incoming"
      by (auto simp: std_min_def)
    with False ff c show ?thesis
      by (auto simp: fill_front_def Let_def live_def)
  qed
  then show ?case
    by simp
qed

declare walk_level.simps [simp del]

text \<open>
  The test that leaves the outer loop: \<^verbatim>\<open>incoming.price < it->first\<close> for a Buy
  taker on the asks, \<^verbatim>\<open>incoming.price > it->first\<close> for a Sell taker on the bids.
\<close>

definition price_stops :: "Side \<Rightarrow> i64 \<Rightarrow> i64 \<Rightarrow> bool" where
  "price_stops s incoming_price level_price =
     (case s of Buy \<Rightarrow> incoming_price <s level_price
              | Sell \<Rightarrow> level_price <s incoming_price)"

text \<open>
  The outer loop, on the opposite side \<open>m\<close> of a taker of side \<open>s\<close>:
  \<^verbatim>\<open>while (incoming.qty > 0 && !m.empty()) { it = m.begin(); ... }\<close>.
  The level is updated in place and erased when its queue is empty.
\<close>

function sweep :: "Side \<Rightarrow> Order \<Rightarrow> LevelMap \<Rightarrow> Trade list \<Rightarrow> Order \<times> LevelMap \<times> Trade list" where
  "sweep s incoming m trades =
     (if 0 <s Order.qty incoming \<and> m \<noteq> [] then
        (case hd m of (p, level) \<Rightarrow>
           if price_stops s (Order.price incoming) p then (incoming, m, trades)
           else
             (case walk_level incoming p level trades of
                (incoming', level', trades') \<Rightarrow>
                  if orders level' = [] then sweep s incoming' (tl m) trades'
                  else sweep s incoming' ((p, level') # tl m) trades'))
      else (incoming, m, trades))"
  by pat_completeness auto
termination
proof (relation "measure (\<lambda>(s, incoming, m, trades). 2 * length m + live incoming)", goal_cases)
  case 1
  show ?case by simp
next
  case (2 s incoming m trades p level incoming' y level' trades')
  then show ?case
    by (cases m) (auto simp: live_def)
next
  case (3 s incoming m trades p level incoming' y level' trades')
  have stop: "orders l' = [] \<or> \<not> 0 <s Order.qty i'"
    if "walk_level i q l t = (i', l', t')" for i q l t i' l' t'
    using that
  proof (induction i q l t rule: walk_level.induct)
    case (1 incoming p level trades)
    show ?case
    proof (cases "0 <s Order.qty incoming \<and> orders level \<noteq> []")
      case True
      obtain i1 l1 t1 where
        ff: "fill_front incoming p level (hd (orders level)) (tl (orders level)) trades = (i1, l1, t1)"
        by (cases "fill_front incoming p level (hd (orders level)) (tl (orders level)) trades") auto
      from "1.prems" True ff have "walk_level i1 p l1 t1 = (i', l', t')"
        by (simp add: walk_level.simps [of incoming])
      from "1.IH" [OF True ff [symmetric] refl this] show ?thesis .
    next
      case False
      with "1.prems" show ?thesis
        by (auto simp: walk_level.simps [of incoming])
    qed
  qed
  from 3 have "walk_level incoming p level trades = (incoming', level', trades')"
    by simp
  from stop [OF this] 3 have "live incoming' = 0"
    by (simp add: live_def)
  with 3 show ?case
    by (cases m) (auto simp: live_def)
qed

declare sweep.simps [simp del]

text \<open>
  \<^verbatim>\<open>OrderBook::match\<close>: the early return on \<^verbatim>\<open>incoming.qty <= 0\<close>, then the Buy arm
  on \<^verbatim>\<open>asks_\<close> or the Sell arm on \<^verbatim>\<open>bids_\<close>. The taker is passed by reference, so
  it is returned with the book and the trades.
\<close>

definition match :: "OrderBook \<Rightarrow> Order \<Rightarrow> Trade list \<Rightarrow> Order \<times> OrderBook \<times> Trade list" where
  "match b incoming trades =
     (if Order.qty incoming \<le>s 0 then (incoming, b, trades)
      else if side incoming = Buy then
        (case sweep Buy incoming (asks b) trades of
           (incoming', m, trades') \<Rightarrow> (incoming', b\<lparr>asks := m\<rparr>, trades'))
      else
        (case sweep Sell incoming (bids b) trades of
           (incoming', m, trades') \<Rightarrow> (incoming', b\<lparr>bids := m\<rparr>, trades')))"

definition best_bid :: "OrderBook \<Rightarrow> i64" where
  "best_bid b = (if bids b = [] then 0 else fst (hd (bids b)))"

definition best_ask :: "OrderBook \<Rightarrow> i64" where
  "best_ask b = (if asks b = [] then 0 else fst (hd (asks b)))"

section \<open>LatencyStats::add and MatchingEngine::process\<close>

definition latency_add :: "LatencyStats \<Rightarrow> u64 \<Rightarrow> LatencyStats" where
  "latency_add l ns =
     l\<lparr>samples := samples l @ [ns],
       min_sample := (if ns < min_sample l then ns else min_sample l),
       max_sample := (if ns > max_sample l then ns else max_sample l)\<rparr>"

text \<open>
  \<^verbatim>\<open>process\<close> reads the clock twice; the two readings \<open>start\<close> and \<open>end'\<close> are
  inputs of the model. The function returns nothing: its effects are the new
  engine state and the trades appended to the caller's vector.
\<close>

definition process :: "u64 \<Rightarrow> u64 \<Rightarrow> MatchingEngine \<Rightarrow> Order \<Rightarrow> Trade list \<Rightarrow> MatchingEngine \<times> Trade list" where
  "process start end' eng order trades =
     (case match (book eng) order trades of
        (order', b, trades') \<Rightarrow>
          (\<lparr>book = (if 0 <s Order.qty order' then add b order' else b),
            latency = latency_add (latency eng) (end' - start)\<rparr>,
           trades'))"

text \<open>A new engine: an empty book, and a fresh \<^verbatim>\<open>LatencyStats\<close>.\<close>

definition new_engine :: MatchingEngine where
  "new_engine =
     \<lparr>book = \<lparr>bids = [], asks = []\<rparr>,
      latency = \<lparr>samples = [], min_sample = 18446744073709551615, max_sample = 0\<rparr>\<rparr>"

text \<open>
  The driver of \<^verbatim>\<open>main\<close> with \<^verbatim>\<open>keep_trades\<close>: every order goes through
  \<^verbatim>\<open>engine.process(order, trades)\<close>, with the two clock readings of its call.
\<close>

fun process_all :: "MatchingEngine \<Rightarrow> Trade list \<Rightarrow> (Order \<times> u64 \<times> u64) list \<Rightarrow> MatchingEngine \<times> Trade list" where
  "process_all eng trades [] = (eng, trades)"
| "process_all eng trades ((order, start, end') # rest) =
     (case process start end' eng order trades of
        (eng', trades') \<Rightarrow> process_all eng' trades' rest)"

section \<open>Notions used to state the properties\<close>

text \<open>The trade of an inner-loop pass: taker \<open>tid\<close> against maker \<open>m\<close> at level \<open>p\<close> for \<open>q\<close>.\<close>

definition trade_of :: "u64 \<Rightarrow> i64 \<Rightarrow> Order \<Rightarrow> i64 \<Rightarrow> Trade" where
  "trade_of tid p m q = \<lparr>taker_id = tid, maker_id = id' m, Trade.price = p, Trade.qty = q\<rparr>"

text \<open>
  A resting order of side \<open>s\<close> in the level of key \<open>p\<close> is in order when its
  quantity is positive and it carries that side and that price.
\<close>

definition order_ok :: "Side \<Rightarrow> i64 \<Rightarrow> Order \<Rightarrow> bool" where
  "order_ok s p ord = (0 <s Order.qty ord \<and> Order.price ord = p \<and> side ord = s)"

text \<open>
  A level is in order when it is not empty, its orders are in order, and its
  cached total is the sum of their quantities, computed as the code computes it
  (in 64-bit arithmetic).
\<close>

definition level_ok :: "Side \<Rightarrow> i64 \<Rightarrow> PriceLevel \<Rightarrow> bool" where
  "level_ok s p level =
     (orders level \<noteq> [] \<and> (\<forall>ord \<in> set (orders level). order_ok s p ord) \<and>
      total_qty level = sum_list (map Order.qty (orders level)))"

definition side_ok :: "(i64 \<Rightarrow> i64 \<Rightarrow> bool) \<Rightarrow> Side \<Rightarrow> LevelMap \<Rightarrow> bool" where
  "side_ok cmp s m =
     (sorted_wrt cmp (map fst m) \<and> (\<forall>(p, level) \<in> set m. level_ok s p level))"

text \<open>
  The book at rest: both maps ordered by their comparators with their levels in
  order, and every bid price below every ask price.
\<close>

definition book_ok :: "OrderBook \<Rightarrow> bool" where
  "book_ok b =
     (side_ok cmp_bids Buy (bids b) \<and> side_ok cmp_asks Sell (asks b) \<and>
      (\<forall>bp \<in> fst ` set (bids b). \<forall>ap \<in> fst ` set (asks b). bp <s ap))"

text \<open>
  \<^verbatim>\<open>Order{id, side, price, qty}\<close>: the time stamp keeps its default, zero.
\<close>

definition order_of :: "u64 \<Rightarrow> Side \<Rightarrow> i64 \<Rightarrow> i64 \<Rightarrow> Order" where
  "order_of i s p q = \<lparr>id' = i, side = s, Order.price = p, Order.qty = q, ts_ns = 0\<rparr>"

text \<open>The orders at rest in the book, bids first, each map in its iteration order.\<close>

definition resting_orders :: "OrderBook \<Rightarrow> Order list" where
  "resting_orders b =
     concat (map (\<lambda>(p, level). orders level) (bids b)) @
     concat (map (\<lambda>(p, level). orders level) (asks b))"

section \<open>The loops of \<^verbatim>\<open>match\<close> without a termination argument\<close>

text \<open>
  The same two loops and the same \<^verbatim>\<open>match\<close>, written as partial functions: a run
  that never leaves a loop has the value \<open>None\<close>. Nothing is assumed about
  termination here.
\<close>

partial_function (option) walk_level_loop ::
    "Order \<Rightarrow> i64 \<Rightarrow> PriceLevel \<Rightarrow> Trade list \<Rightarrow> (Order \<times> PriceLevel \<times> Trade list) option" where
  "walk_level_loop incoming p level trades =
     (if 0 <s Order.qty incoming \<and> orders level \<noteq> [] then
        (case fill_front incoming p level (hd (orders level)) (tl (orders level)) trades of
           (incoming', level', trades') \<Rightarrow> walk_level_loop incoming' p level' trades')
      else Some (incoming, level, trades))"

partial_function (option) sweep_loop ::
    "Side \<Rightarrow> Order \<Rightarrow> LevelMap \<Rightarrow> Trade list \<Rightarrow> (Order \<times> LevelMap \<times> Trade list) option" where
  "sweep_loop s incoming m trades =
     (if 0 <s Order.qty incoming \<and> m \<noteq> [] then
        (case hd m of (p, level) \<Rightarrow>
           if price_stops s (Order.price incoming) p then Some (incoming, m, trades)
           else
             Option.bind (walk_level_loop incoming p level trades)
               (\<lambda>(incoming', level', trades').
                  if orders level' = [] then sweep_loop s incoming' (tl m) trades'
                  else sweep_loop s incoming' ((p, level') # tl m) trades'))
      else Some (incoming, m, trades))"

definition match_loop :: "OrderBook \<Rightarrow> Order \<Rightarrow> Trade list \<Rightarrow> (Order \<times> OrderBook \<times> Trade list) option" where
  "match_loop b incoming trades =
     (if Order.qty incoming \<le>s 0 then Some (incoming, b, trades)
      else if side incoming = Buy then
        map_option (\<lambda>(incoming', m, trades'). (incoming', b\<lparr>asks := m\<rparr>, trades'))
          (sweep_loop Buy incoming (asks b) trades)
      else
        map_option (\<lambda>(incoming', m, trades'). (incoming', b\<lparr>bids := m\<rparr>, trades'))
          (sweep_loop Sell incoming (bids b) trades))"

text \<open>
  A book with the time stamps of its resting orders erased, and two orders that
  agree on identifier, side, price and quantity. The code reads \<^verbatim>\<open>ts_ns\<close>
  nowhere; these notions state that.
\<close>

definition untimed :: "Order \<Rightarrow> Order" where
  "untimed ord = ord\<lparr>ts_ns := 0\<rparr>"

definition untimed_level :: "PriceLevel \<Rightarrow> PriceLevel" where
  "untimed_level level = level\<lparr>orders := map untimed (orders level)\<rparr>"

definition untimed_map :: "LevelMap \<Rightarrow> LevelMap" where
  "untimed_map m = map (\<lambda>(p, level). (p, untimed_level level)) m"

definition untimed_book :: "OrderBook \<Rightarrow> OrderBook" where
  "untimed_book b = \<lparr>bids = untimed_map (bids b), asks = untimed_map (asks b)\<rparr>"

definition same_fields :: "Order \<Rightarrow> Order \<Rightarrow> bool" where
  "same_fields a b =
     (id' a = id' b \<and> side a = side b \<and> Order.price a = Order.price b \<and> Order.qty a = Order.qty b)"

text \<open>
  The resting orders of one side in the order the maps and queues hold them: level
  by level from \<^verbatim>\<open>begin()\<close>, each level from its front, every order with the key
  of its level.
\<close>

definition queue_of :: "LevelMap \<Rightarrow> (i64 \<times> Order) list" where
  "queue_of m = concat (map (\<lambda>(p, level). map (Pair p) (orders level)) m)"

text \<open>The trades that fill every order of a queue completely, in its order.\<close>

definition full_fills :: "u64 \<Rightarrow> (i64 \<times> Order) list \<Rightarrow> Trade list" where
  "full_fills tid q = map (\<lambda>(p, m). trade_of tid p m (Order.qty m)) q"

text \<open>A book with two ask levels, the first with two orders queued.\<close>

definition example_book :: OrderBook where
  "example_book =
     \<lparr>bids = [],
      asks = [(100, \<lparr>orders = [order_of 1 Sell 100 3, order_of 2 Sell 100 7], total_qty = 10\<rparr>),
              (101, \<lparr>orders = [order_of 3 Sell 101 5], total_qty = 5\<rparr>)]\<rparr>"

text \<open>The side a taker is matched against, and which of two prices there is better for it.\<close>

definition opposite :: "OrderBook \<Rightarrow> Side \<Rightarrow> LevelMap" where
  "opposite b taker = (case taker of Buy \<Rightarrow> asks b | Sell \<Rightarrow> bids b)"

definition better_price :: "Side \<Rightarrow> i64 \<Rightarrow> i64 \<Rightarrow> bool" where
  "better_price taker a b = (case taker of Buy \<Rightarrow> a <s b | Sell \<Rightarrow> b <s a)"

text \<open>
  Trades consume a queue from its front: a prefix is filled completely, order by
  order, and at most the next order is filled in part and stays at the front.
\<close>

definition consumes :: "u64 \<Rightarrow> (i64 \<times> Order) list \<Rightarrow> Trade list \<Rightarrow> (i64 \<times> Order) list \<Rightarrow> bool" where
  "consumes tid q fills q' =
     (\<exists>gone rest. q = gone @ rest \<and>
        (fills = full_fills tid gone \<and> q' = rest \<or>
         (\<exists>p m x rest'. rest = (p, m) # rest' \<and>
            fills = full_fills tid gone @ [trade_of tid p m x] \<and>
            q' = (p, m\<lparr>Order.qty := Order.qty m - x\<rparr>) # rest')))"

section \<open>Cancellation, which the source does not have\<close>

text \<open>
  Modelled from the spec: the handle of the identifier index. \<^verbatim>\<open>OrderBook\<close> has no
  index and no \<^verbatim>\<open>cancel\<close> in the source. The spec's handle locates a resting order
  by side, price and queue node; the node is the order of that identifier in the
  queue of the level.
\<close>

record Handle =
  h_side :: Side
  h_price :: i64

text \<open>
  Modelled from the spec: the book with its index, "mapping from id to a handle
  locating the resting order", which the source's \<^verbatim>\<open>OrderBook\<close> lacks.
\<close>

record IndexedBook =
  levels :: OrderBook
  index :: "u64 \<rightharpoonup> Handle"

text \<open>
  Modelled from the spec: the middle of \<^verbatim>\<open>cancel\<close>, absent from the source.
  "Detach from its level's FIFO. Decrease \<^verbatim>\<open>level.total_qty\<close> by the remaining
  \<^verbatim>\<open>qty\<close>. If the level becomes empty, erase it from the price map."
\<close>

fun detach :: "u64 \<Rightarrow> i64 \<Rightarrow> LevelMap \<Rightarrow> LevelMap" where
  "detach i p [] = []"
| "detach i p ((k, level) # m) =
     (if k = p then
        (case find (\<lambda>ord. id' ord = i) (orders level) of
           None \<Rightarrow> (k, level) # m
         | Some ord \<Rightarrow>
             (let level' = level\<lparr>orders := remove1 ord (orders level),
                                  total_qty := total_qty level - Order.qty ord\<rparr>
              in if orders level' = [] then m else (k, level') # m))
      else (k, level) # detach i p m)"

text \<open>
  Modelled from the spec: \<^verbatim>\<open>cancel(id)\<close>, absent from the source. "Locate via the
  index. [...] Erase from the index. Return success/not-found."
\<close>

definition cancel :: "IndexedBook \<Rightarrow> u64 \<Rightarrow> bool \<times> IndexedBook" where
  "cancel ib i =
     (case index ib i of
        None \<Rightarrow> (False, ib)
      | Some h \<Rightarrow>
          (True,
           \<lparr>levels =
              (case h_side h of
                 Buy \<Rightarrow> (levels ib)\<lparr>bids := detach i (h_price h) (bids (levels ib))\<rparr>
               | Sell \<Rightarrow> (levels ib)\<lparr>asks := detach i (h_price h) (asks (levels ib))\<rparr>),
            index = (index ib)(i := None)\<rparr>))"

text \<open>
  Modelled from the spec: the invariants of the book with its index, for which
  the source has no code. The book is at rest and in order, identifiers are
  unique, each identifier is in the index iff an order with it is resting, and
  its handle gives the side and the price of that order.
\<close>

definition index_ok :: "IndexedBook \<Rightarrow> bool" where
  "index_ok ib =
     (book_ok (levels ib) \<and>
      distinct (map id' (resting_orders (levels ib))) \<and>
      dom (index ib) = id' ` set (resting_orders (levels ib)) \<and>
      (\<forall>ord \<in> set (resting_orders (levels ib)).
         index ib (id' ord) = Some \<lparr>h_side = side ord, h_price = Order.price ord\<rparr>))"

text \<open>The orders of one side, level by level.\<close>

definition side_orders :: "LevelMap \<Rightarrow> Order list" where
  "side_orders m = concat (map (\<lambda>(p, level). orders level) m)"

text \<open>Two sells resting at one price, both indexed.\<close>

definition example_indexed :: IndexedBook where
  "example_indexed =
     \<lparr>levels = \<lparr>bids = [],
                 asks = [(100, \<lparr>orders = [order_of 1 Sell 100 5, order_of 2 Sell 100 5], total_qty = 10\<rparr>)]\<rparr>,
      index = [1 \<mapsto> \<lparr>h_side = Sell, h_price = 100\<rparr>, 2 \<mapsto> \<lparr>h_side = Sell, h_price = 100\<rparr>]\<rparr>"

section \<open>Signed arithmetic\<close>

lemma sint_sub_nonneg:
  fixes a b :: i64
  assumes "0 <s b" and "b \<le>s a"
  shows "sint (a - b) = sint a - sint b"
proof -
  from assms have "0 < sint b" "sint b \<le> sint a"
    by (simp_all add: word_sless_alt word_sle_eq)
  moreover have "sint a < 2 ^ 63"
    using sint_lt [of a] by simp
  ultimately have "- (2 ^ 63) \<le> sint a - sint b" "sint a - sint b < 2 ^ 63"
    by simp_all
  then have "signed_take_bit 63 (sint a - sint b) = sint a - sint b"
    by (simp add: signed_take_bit_int_eq_self)
  then show ?thesis
    by (simp add: sint_word_ariths)
qed

section \<open>The inner loop, pass by pass\<close>

lemma walk_level_stop:
  "\<not> (0 <s Order.qty incoming \<and> orders level \<noteq> []) \<Longrightarrow>
     walk_level incoming p level trades = (incoming, level, trades)"
  by (subst walk_level.simps) auto

lemma walk_level_pop:
  assumes "0 <s Order.qty incoming" and "orders level = m # ms" and "Order.qty m \<le>s Order.qty incoming"
  shows "walk_level incoming p level trades =
    walk_level (incoming\<lparr>Order.qty := Order.qty incoming - Order.qty m\<rparr>) p
      (level\<lparr>total_qty := total_qty level - Order.qty m, orders := ms\<rparr>)
      (trades @ [trade_of (id' incoming) p m (Order.qty m)])"
proof -
  from assms(3) have "std_min (Order.qty incoming) (Order.qty m) = Order.qty m"
    by (auto simp: std_min_def signed.le_less)
  with assms(1,2) show ?thesis
    by (simp add: walk_level.simps [of incoming] fill_front_def trade_of_def Let_def)
qed

lemma walk_level_partial:
  assumes "0 <s Order.qty incoming" and "orders level = m # ms" and "Order.qty incoming <s Order.qty m"
  shows "walk_level incoming p level trades =
    (incoming\<lparr>Order.qty := 0\<rparr>,
     level\<lparr>total_qty := total_qty level - Order.qty incoming,
           orders := m\<lparr>Order.qty := Order.qty m - Order.qty incoming\<rparr> # ms\<rparr>,
     trades @ [trade_of (id' incoming) p m (Order.qty incoming)])"
proof -
  from assms(3) have e: "std_min (Order.qty incoming) (Order.qty m) = Order.qty incoming"
    by (auto simp: std_min_def)
  from assms(3) have "Order.qty m \<noteq> Order.qty incoming"
    by auto
  with e assms(1,2) show ?thesis
    by (simp add: walk_level.simps [of incoming] fill_front_def trade_of_def Let_def walk_level_stop)
qed

lemma walk_level_rule [case_names stop pop partial]:
  assumes stop: "\<And>incoming level trades.
      \<not> (0 <s Order.qty incoming \<and> orders level \<noteq> []) \<Longrightarrow> P incoming level trades (incoming, level, trades)"
    and pop: "\<And>incoming level trades m ms r.
      0 <s Order.qty incoming \<Longrightarrow> orders level = m # ms \<Longrightarrow> Order.qty m \<le>s Order.qty incoming \<Longrightarrow>
      P (incoming\<lparr>Order.qty := Order.qty incoming - Order.qty m\<rparr>)
        (level\<lparr>total_qty := total_qty level - Order.qty m, orders := ms\<rparr>)
        (trades @ [trade_of (id' incoming) p m (Order.qty m)]) r \<Longrightarrow>
      P incoming level trades r"
    and partial: "\<And>incoming level trades m ms.
      0 <s Order.qty incoming \<Longrightarrow> orders level = m # ms \<Longrightarrow> Order.qty incoming <s Order.qty m \<Longrightarrow>
      P incoming level trades
        (incoming\<lparr>Order.qty := 0\<rparr>,
         level\<lparr>total_qty := total_qty level - Order.qty incoming,
               orders := m\<lparr>Order.qty := Order.qty m - Order.qty incoming\<rparr> # ms\<rparr>,
         trades @ [trade_of (id' incoming) p m (Order.qty incoming)])"
  shows "P incoming level trades (walk_level incoming p level trades)"
proof -
  have "orders level = xs \<Longrightarrow> P incoming level trades (walk_level incoming p level trades)" for xs
  proof (induction xs arbitrary: incoming level trades)
    case Nil
    then show ?case by (simp add: walk_level_stop stop)
  next
    case (Cons m ms)
    show ?case
    proof (cases "0 <s Order.qty incoming")
      case False
      then show ?thesis by (simp add: walk_level_stop stop)
    next
      case live: True
      show ?thesis
      proof (cases "Order.qty m \<le>s Order.qty incoming")
        case True
        have "P (incoming\<lparr>Order.qty := Order.qty incoming - Order.qty m\<rparr>)
            (level\<lparr>total_qty := total_qty level - Order.qty m, orders := ms\<rparr>)
            (trades @ [trade_of (id' incoming) p m (Order.qty m)])
            (walk_level (incoming\<lparr>Order.qty := Order.qty incoming - Order.qty m\<rparr>) p
               (level\<lparr>total_qty := total_qty level - Order.qty m, orders := ms\<rparr>)
               (trades @ [trade_of (id' incoming) p m (Order.qty m)]))"
          by (rule Cons.IH) simp
        from pop [OF live Cons.prems True this] show ?thesis
          by (simp add: walk_level_pop [OF live Cons.prems True])
      next
        case False
        then have lt: "Order.qty incoming <s Order.qty m" by simp
        from partial [OF live Cons.prems lt] show ?thesis
          by (simp add: walk_level_partial [OF live Cons.prems lt])
      qed
    qed
  qed
  then show ?thesis by simp
qed

lemma walk_level_exit:
  "walk_level incoming p level trades = (incoming', level', trades') \<Longrightarrow>
     orders level' = [] \<or> \<not> 0 <s Order.qty incoming'"
  using walk_level_rule [where P = "\<lambda>incoming level trades r.
    orders (fst (snd r)) = [] \<or> \<not> 0 <s Order.qty (fst r)" and p = p, of incoming level trades]
  by auto

lemma walk_level_taker:
  "fst (walk_level incoming p level trades) =
     incoming\<lparr>Order.qty := Order.qty (fst (walk_level incoming p level trades))\<rparr>"
  by (rule walk_level_rule [where P = "\<lambda>incoming level trades r. fst r = incoming\<lparr>Order.qty := Order.qty (fst r)\<rparr>"])
    simp_all

lemma walk_level_orders_ok:
  "(\<forall>ord \<in> set (orders level). order_ok s p ord) \<longrightarrow>
   (\<forall>ord \<in> set (orders (fst (snd (walk_level incoming p level trades)))). order_ok s p ord)"
proof (rule walk_level_rule [where P = "\<lambda>incoming level trades r.
    (\<forall>ord \<in> set (orders level). order_ok s p ord) \<longrightarrow>
    (\<forall>ord \<in> set (orders (fst (snd r))). order_ok s p ord)"], goal_cases)
  case (1 incoming level trades)
  then show ?case by simp
next
  case (2 incoming level trades m ms r)
  then show ?case by simp
next
  case (3 incoming level trades m ms)
  from 3(1,3) have "sint (Order.qty m - Order.qty incoming) = sint (Order.qty m) - sint (Order.qty incoming)"
    by (intro sint_sub_nonneg) (simp_all add: signed.less_imp_le)
  with 3(3) have "0 <s Order.qty m - Order.qty incoming"
    by (simp add: word_sless_alt)
  with 3(2) show ?case
    by (simp add: order_ok_def)
qed

lemma walk_level_total:
  "total_qty level = sum_list (map Order.qty (orders level)) \<longrightarrow>
   total_qty (fst (snd (walk_level incoming p level trades))) =
     sum_list (map Order.qty (orders (fst (snd (walk_level incoming p level trades)))))"
  by (rule walk_level_rule [where P = "\<lambda>incoming level trades r.
    total_qty level = sum_list (map Order.qty (orders level)) \<longrightarrow>
    total_qty (fst (snd r)) = sum_list (map Order.qty (orders (fst (snd r))))"]) simp_all

lemma walk_level_trades:
  "\<exists>fills. snd (snd (walk_level incoming p level trades)) = trades @ fills"
  by (rule walk_level_rule [where P = "\<lambda>incoming level trades r. \<exists>fills. snd (snd r) = trades @ fills"])
    auto

text \<open>Signed sums: with positive makers no subtraction of the loop overflows.\<close>

lemma walk_level_mass:
  "(\<forall>ord \<in> set (orders level). 0 <s Order.qty ord) \<longrightarrow> 0 \<le>s Order.qty incoming \<longrightarrow>
   (\<Sum>t\<leftarrow>snd (snd (walk_level incoming p level trades)). sint (Trade.qty t)) +
     sint (Order.qty (fst (walk_level incoming p level trades))) =
   (\<Sum>t\<leftarrow>trades. sint (Trade.qty t)) + sint (Order.qty incoming) \<and>
   0 \<le>s Order.qty (fst (walk_level incoming p level trades))"
proof (rule walk_level_rule [where P = "\<lambda>incoming level trades r.
    (\<forall>ord \<in> set (orders level). 0 <s Order.qty ord) \<longrightarrow> 0 \<le>s Order.qty incoming \<longrightarrow>
    (\<Sum>t\<leftarrow>snd (snd r). sint (Trade.qty t)) + sint (Order.qty (fst r)) =
    (\<Sum>t\<leftarrow>trades. sint (Trade.qty t)) + sint (Order.qty incoming) \<and>
    0 \<le>s Order.qty (fst r)"], goal_cases)
  case (1 incoming level trades)
  then show ?case by simp
next
  case (2 incoming level trades m ms r)
  show ?case
  proof (intro impI)
    assume pos: "\<forall>ord \<in> set (orders level). 0 <s Order.qty ord" and "0 \<le>s Order.qty incoming"
    from pos 2(2) have m: "0 <s Order.qty m" by simp
    from sint_sub_nonneg [OF m 2(3)]
    have sub: "sint (Order.qty incoming - Order.qty m) = sint (Order.qty incoming) - sint (Order.qty m)" .
    with 2(3) have "0 \<le>s Order.qty incoming - Order.qty m"
      by (simp add: word_sle_eq)
    with 2(4) pos 2(2) sub show "(\<Sum>t\<leftarrow>snd (snd r). sint (Trade.qty t)) + sint (Order.qty (fst r)) =
        (\<Sum>t\<leftarrow>trades. sint (Trade.qty t)) + sint (Order.qty incoming) \<and> 0 \<le>s Order.qty (fst r)"
      by (simp add: trade_of_def)
  qed
next
  case (3 incoming level trades m ms)
  then show ?case by (simp add: trade_of_def)
qed

lemma walk_level_fill_pos:
  "(\<forall>ord \<in> set (orders level). 0 <s Order.qty ord) \<longrightarrow>
   (\<forall>t \<in> set (snd (snd (walk_level incoming p level trades))).
      t \<in> set trades \<or> 0 <s Trade.qty t)"
  by (rule walk_level_rule [where P = "\<lambda>incoming level trades r.
    (\<forall>ord \<in> set (orders level). 0 <s Order.qty ord) \<longrightarrow>
    (\<forall>t \<in> set (snd (snd r)). t \<in> set trades \<or> 0 <s Trade.qty t)"])
    (auto simp: trade_of_def)

lemma walk_level_fill_price:
  "\<forall>t \<in> set (snd (snd (walk_level incoming p level trades))).
      t \<in> set trades \<or> (Trade.price t = p \<and> taker_id t = id' incoming)"
  by (rule walk_level_rule [where P = "\<lambda>incoming level trades r.
    (\<forall>t \<in> set (snd (snd r)). t \<in> set trades \<or> (Trade.price t = p \<and> taker_id t = id' incoming))"])
    (auto simp: trade_of_def)

section \<open>The outer loop, level by level\<close>

lemma sweep_stop:
  "\<not> (0 <s Order.qty incoming \<and> m \<noteq> []) \<Longrightarrow> sweep s incoming m trades = (incoming, m, trades)"
  by (subst sweep.simps) auto

lemma sweep_break:
  "0 <s Order.qty incoming \<Longrightarrow> price_stops s (Order.price incoming) p \<Longrightarrow>
     sweep s incoming ((p, level) # m) trades = (incoming, (p, level) # m, trades)"
  by (subst sweep.simps) auto

lemma sweep_erase:
  "0 <s Order.qty incoming \<Longrightarrow> \<not> price_stops s (Order.price incoming) p \<Longrightarrow>
   walk_level incoming p level trades = (incoming', level', trades') \<Longrightarrow> orders level' = [] \<Longrightarrow>
     sweep s incoming ((p, level) # m) trades = sweep s incoming' m trades'"
  by (subst sweep.simps) auto

lemma sweep_keep:
  assumes "0 <s Order.qty incoming" and "\<not> price_stops s (Order.price incoming) p"
    and w: "walk_level incoming p level trades = (incoming', level', trades')"
    and ne: "orders level' \<noteq> []"
  shows "sweep s incoming ((p, level) # m) trades = (incoming', (p, level') # m, trades')"
proof -
  from walk_level_exit [OF w] ne have "\<not> 0 <s Order.qty incoming'" by simp
  then have "sweep s incoming' ((p, level') # m) trades' = (incoming', (p, level') # m, trades')"
    by (simp add: sweep_stop)
  with assms show ?thesis
    by (subst sweep.simps) auto
qed

lemma sweep_rule [case_names stop break erase keep]:
  assumes stop: "\<And>incoming m trades.
      \<not> (0 <s Order.qty incoming \<and> m \<noteq> []) \<Longrightarrow> P incoming m trades (incoming, m, trades)"
    and break: "\<And>incoming p level m trades.
      0 <s Order.qty incoming \<Longrightarrow> price_stops s (Order.price incoming) p \<Longrightarrow>
      P incoming ((p, level) # m) trades (incoming, (p, level) # m, trades)"
    and erase: "\<And>incoming p level m trades q level' trades' r.
      0 <s Order.qty incoming \<Longrightarrow> \<not> price_stops s (Order.price incoming) p \<Longrightarrow>
      walk_level incoming p level trades = (incoming\<lparr>Order.qty := q\<rparr>, level', trades') \<Longrightarrow>
      orders level' = [] \<Longrightarrow>
      P (incoming\<lparr>Order.qty := q\<rparr>) m trades' r \<Longrightarrow>
      P incoming ((p, level) # m) trades r"
    and keep: "\<And>incoming p level m trades q level' trades'.
      0 <s Order.qty incoming \<Longrightarrow> \<not> price_stops s (Order.price incoming) p \<Longrightarrow>
      walk_level incoming p level trades = (incoming\<lparr>Order.qty := q\<rparr>, level', trades') \<Longrightarrow>
      orders level' \<noteq> [] \<Longrightarrow> \<not> 0 <s q \<Longrightarrow>
      P incoming ((p, level) # m) trades (incoming\<lparr>Order.qty := q\<rparr>, (p, level') # m, trades')"
  shows "P incoming m trades (sweep s incoming m trades)"
proof (induction m arbitrary: incoming trades)
  case Nil
  show ?case by (simp add: sweep_stop stop)
next
  case (Cons entry m)
  obtain p level where entry: "entry = (p, level)" by (cases entry)
  show ?case
  proof (cases "0 <s Order.qty incoming")
    case False
    then show ?thesis by (simp add: sweep_stop stop)
  next
    case live: True
    show ?thesis
    proof (cases "price_stops s (Order.price incoming) p")
      case True
      with live show ?thesis by (simp add: entry sweep_break break)
    next
      case False
      obtain incoming' level' trades' where
        w0: "walk_level incoming p level trades = (incoming', level', trades')"
        by (cases "walk_level incoming p level trades") auto
      from walk_level_taker [of incoming p level trades] w0
      have "incoming' = incoming\<lparr>Order.qty := Order.qty incoming'\<rparr>" by simp
      with w0 have w: "walk_level incoming p level trades =
          (incoming\<lparr>Order.qty := Order.qty incoming'\<rparr>, level', trades')" by simp
      show ?thesis
      proof (cases "orders level' = []")
        case True
        from erase [OF live False w True Cons.IH] show ?thesis
          by (simp add: entry sweep_erase [OF live False w True])
      next
        case ne: False
        from walk_level_exit [OF w] ne have "\<not> 0 <s Order.qty incoming'" by simp
        from keep [OF live False w ne this] show ?thesis
          by (simp add: entry sweep_keep [OF live False w ne])
      qed
    qed
  qed
qed

lemma sweep_taker:
  "fst (sweep s incoming m trades) = incoming\<lparr>Order.qty := Order.qty (fst (sweep s incoming m trades))\<rparr>"
  by (rule sweep_rule [where P = "\<lambda>incoming m trades r. fst r = incoming\<lparr>Order.qty := Order.qty (fst r)\<rparr>"])
    simp_all

lemma sweep_keys:
  "\<exists>pre. map fst m = pre @ map fst (fst (snd (sweep s incoming m trades)))"
proof (rule sweep_rule [where P = "\<lambda>incoming m trades r. \<exists>pre. map fst m = pre @ map fst (fst (snd r))"],
    goal_cases)
  case (3 incoming p level m trades q level' trades' r)
  then obtain pre where "map fst m = pre @ map fst (fst (snd r))" by blast
  then have "map fst ((p, level) # m) = (p # pre) @ map fst (fst (snd r))" by simp
  then show ?case by blast
qed simp_all

lemma sweep_exit:
  "\<not> 0 <s Order.qty (fst (sweep s incoming m trades)) \<or> fst (snd (sweep s incoming m trades)) = [] \<or>
   price_stops s (Order.price incoming) (fst (hd (fst (snd (sweep s incoming m trades)))))"
  by (rule sweep_rule [where P = "\<lambda>incoming m trades r.
    \<not> 0 <s Order.qty (fst r) \<or> fst (snd r) = [] \<or>
    price_stops s (Order.price incoming) (fst (hd (fst (snd r))))"]) auto

lemma sweep_levels_ok:
  "(\<forall>(p, level) \<in> set m. level_ok s' p level) \<longrightarrow>
   (\<forall>(p, level) \<in> set (fst (snd (sweep s incoming m trades))). level_ok s' p level)"
proof (rule sweep_rule [where P = "\<lambda>incoming m trades r.
    (\<forall>(p, level) \<in> set m. level_ok s' p level) \<longrightarrow>
    (\<forall>(p, level) \<in> set (fst (snd r)). level_ok s' p level)"], goal_cases)
  case (4 incoming p level m trades q level' trades')
  show ?case
  proof
    assume a: "\<forall>(p, level) \<in> set ((p, level) # m). level_ok s' p level"
    then have "level_ok s' p level" by simp
    with walk_level_orders_ok [of level s' p incoming trades]
      walk_level_total [of level incoming p trades] 4(3,4)
    have "level_ok s' p level'"
      by (simp add: level_ok_def)
    with a show "\<forall>(p, level) \<in> set (fst (snd (incoming\<lparr>Order.qty := q\<rparr>, (p, level') # m, trades'))).
        level_ok s' p level"
      by simp
  qed
qed simp_all

lemma sweep_trades:
  "\<exists>fills. snd (snd (sweep s incoming m trades)) = trades @ fills"
proof (rule sweep_rule [where P = "\<lambda>incoming m trades r. \<exists>fills. snd (snd r) = trades @ fills"],
    goal_cases)
  case (3 incoming p level m trades q level' trades' r)
  with walk_level_trades [of incoming p level trades] show ?case by auto
next
  case (4 incoming p level m trades q level' trades')
  with walk_level_trades [of incoming p level trades] show ?case by auto
qed simp_all

lemma sweep_mass:
  "(\<forall>(p, level) \<in> set m. \<forall>ord \<in> set (orders level). 0 <s Order.qty ord) \<longrightarrow>
   0 \<le>s Order.qty incoming \<longrightarrow>
   (\<Sum>t\<leftarrow>snd (snd (sweep s incoming m trades)). sint (Trade.qty t)) +
     sint (Order.qty (fst (sweep s incoming m trades))) =
   (\<Sum>t\<leftarrow>trades. sint (Trade.qty t)) + sint (Order.qty incoming) \<and>
   0 \<le>s Order.qty (fst (sweep s incoming m trades))"
proof (rule sweep_rule [where P = "\<lambda>incoming m trades r.
    (\<forall>(p, level) \<in> set m. \<forall>ord \<in> set (orders level). 0 <s Order.qty ord) \<longrightarrow>
    0 \<le>s Order.qty incoming \<longrightarrow>
    (\<Sum>t\<leftarrow>snd (snd r). sint (Trade.qty t)) + sint (Order.qty (fst r)) =
    (\<Sum>t\<leftarrow>trades. sint (Trade.qty t)) + sint (Order.qty incoming) \<and>
    0 \<le>s Order.qty (fst r)"], goal_cases)
  case (3 incoming p level m trades q level' trades' r)
  with walk_level_mass [of level incoming p trades] show ?case by auto
next
  case (4 incoming p level m trades q level' trades')
  with walk_level_mass [of level incoming p trades] show ?case by auto
qed simp_all

lemma sweep_fill_pos:
  "(\<forall>(p, level) \<in> set m. \<forall>ord \<in> set (orders level). 0 <s Order.qty ord) \<longrightarrow>
   (\<forall>t \<in> set (snd (snd (sweep s incoming m trades))). t \<in> set trades \<or> 0 <s Trade.qty t)"
proof (rule sweep_rule [where P = "\<lambda>incoming m trades r.
    (\<forall>(p, level) \<in> set m. \<forall>ord \<in> set (orders level). 0 <s Order.qty ord) \<longrightarrow>
    (\<forall>t \<in> set (snd (snd r)). t \<in> set trades \<or> 0 <s Trade.qty t)"], goal_cases)
  case (3 incoming p level m trades q level' trades' r)
  with walk_level_fill_pos [of level incoming p trades] show ?case by auto
next
  case (4 incoming p level m trades q level' trades')
  with walk_level_fill_pos [of level incoming p trades] show ?case by auto
qed simp_all

section \<open>The ordered maps under insertion\<close>

lemma cmp_total:
  "cmp = cmp_asks \<or> cmp = cmp_bids \<Longrightarrow> \<not> cmp a b \<Longrightarrow> \<not> cmp b a \<Longrightarrow> a = b"
  by (auto simp: cmp_asks_def cmp_bids_def)

lemma cmp_trans:
  "cmp = cmp_asks \<or> cmp = cmp_bids \<Longrightarrow> cmp a b \<Longrightarrow> cmp b c \<Longrightarrow> cmp a c"
  by (auto simp: cmp_asks_def cmp_bids_def)

lemma map_index_keys:
  assumes c: "cmp = cmp_asks \<or> cmp = cmp_bids"
  shows "fst ` set (map_index cmp k f m) = insert k (fst ` set m)"
proof (induction m)
  case Nil
  show ?case by simp
next
  case (Cons e m)
  obtain k' v where e: "e = (k', v)" by (cases e)
  show ?case
    using Cons.IH cmp_total [OF c, of k k'] by (auto simp: e)
qed

lemma map_index_sorted:
  assumes c: "cmp = cmp_asks \<or> cmp = cmp_bids"
    and sorted: "sorted_wrt cmp (map fst m)"
  shows "sorted_wrt cmp (map fst (map_index cmp k f m))"
  using sorted
proof (induction m)
  case Nil
  show ?case by simp
next
  case (Cons e m)
  obtain k' v where e: "e = (k', v)" by (cases e)
  from Cons.prems have tl: "sorted_wrt cmp (map fst m)" and hd: "\<forall>x \<in> fst ` set m. cmp k' x"
    by (simp_all add: e)
  show ?case
  proof (cases "cmp k k'")
    case True
    with hd cmp_trans [OF c] have "\<forall>x \<in> fst ` set m. cmp k x" by blast
    with True Cons.prems show ?thesis by (simp add: e)
  next
    case False
    show ?thesis
    proof (cases "cmp k' k")
      case True
      with False hd Cons.IH [OF tl] show ?thesis
        by (auto simp: e map_index_keys [OF c])
    next
      case False
      with \<open>\<not> cmp k k'\<close> Cons.prems show ?thesis by (simp add: e)
    qed
  qed
qed

lemma map_index_levels:
  assumes c: "cmp = cmp_asks \<or> cmp = cmp_bids"
    and old: "\<forall>(p, level) \<in> set m. Q p level"
    and fresh: "Q k (f empty_level)"
    and upd: "\<And>level. Q k level \<Longrightarrow> Q k (f level)"
  shows "\<forall>(p, level) \<in> set (map_index cmp k f m). Q p level"
  using old
proof (induction m)
  case Nil
  from fresh show ?case by simp
next
  case (Cons e m)
  obtain k' v where e: "e = (k', v)" by (cases e)
  from Cons show ?case
    using cmp_total [OF c, of k k'] fresh upd by (auto simp: e)
qed

lemma insert_order_side_ok:
  assumes c: "cmp = cmp_asks \<or> cmp = cmp_bids"
    and ok: "side_ok cmp s m" and pos: "0 <s Order.qty ord" and s: "side ord = s"
  shows "side_ok cmp s (insert_order cmp m ord)"
proof -
  let ?f = "\<lambda>level. level\<lparr>total_qty := total_qty level + Order.qty ord, orders := orders level @ [ord]\<rparr>"
  have "\<forall>(p, level) \<in> set (map_index cmp (Order.price ord) ?f m). level_ok s p level"
  proof (rule map_index_levels [OF c])
    from ok show "\<forall>(p, level) \<in> set m. level_ok s p level" by (simp add: side_ok_def)
    from pos s show "level_ok s (Order.price ord) (?f empty_level)"
      by (simp add: level_ok_def order_ok_def empty_level_def)
    fix level
    assume "level_ok s (Order.price ord) level"
    with pos s show "level_ok s (Order.price ord) (?f level)"
      by (simp add: level_ok_def order_ok_def)
  qed
  moreover from ok have "sorted_wrt cmp (map fst (map_index cmp (Order.price ord) ?f m))"
    by (intro map_index_sorted [OF c]) (simp_all add: side_ok_def)
  ultimately show ?thesis
    by (simp add: side_ok_def insert_order_def)
qed

lemma insert_order_keys:
  assumes c: "cmp = cmp_asks \<or> cmp = cmp_bids"
  shows "fst ` set (insert_order cmp m ord) = insert (Order.price ord) (fst ` set m)"
  by (simp add: insert_order_def map_index_keys [OF c])

section \<open>The book at rest is kept in order\<close>

lemma sweep_side_ok:
  assumes c: "cmp = cmp_asks \<or> cmp = cmp_bids"
    and ok: "side_ok cmp s' m" and r: "sweep s incoming m trades = (incoming', m', trades')"
  shows "side_ok cmp s' m'" and "fst ` set m' \<subseteq> fst ` set m"
proof -
  from sweep_keys [of m s incoming trades] r obtain pre where pre: "map fst m = pre @ map fst m'"
    by auto
  with ok have "sorted_wrt cmp (map fst m')"
    by (simp add: side_ok_def sorted_wrt_append)
  moreover from sweep_levels_ok [of m s' s incoming trades] ok r
  have "\<forall>(p, level) \<in> set m'. level_ok s' p level"
    by (simp add: side_ok_def)
  ultimately show "side_ok cmp s' m'" by (simp add: side_ok_def)
  from pre have "set (map fst m') \<subseteq> set (map fst m)"
    by (metis Un_upper2 set_append)
  then show "fst ` set m' \<subseteq> fst ` set m" by simp
qed


lemma sweep_frontier:
  assumes sorted: "sorted_wrt cmp (map fst m)"
    and cmp: "\<And>a c. price_stops s (Order.price incoming) a \<Longrightarrow> cmp a c \<Longrightarrow> price_stops s (Order.price incoming) c"
    and r: "sweep s incoming m trades = (incoming', m', trades')"
    and live: "0 <s Order.qty incoming'"
  shows "\<forall>k \<in> fst ` set m'. price_stops s (Order.price incoming) k"
proof (cases m')
  case Nil
  then show ?thesis by simp
next
  case (Cons e rest)
  from sweep_keys [of m s incoming trades] r obtain pre where "map fst m = pre @ map fst m'"
    by auto
  with sorted have "sorted_wrt cmp (map fst m')"
    by (simp add: sorted_wrt_append)
  with Cons have later: "\<forall>k \<in> fst ` set rest. cmp (fst e) k"
    by simp
  from sweep_exit [of s incoming m trades] r live Cons
  have "price_stops s (Order.price incoming) (fst e)"
    by simp
  with later cmp Cons show ?thesis
    by auto
qed

lemma match_book_ok:
  assumes ok: "book_ok b" and r: "match b incoming trades = (incoming', b', trades')"
  shows "book_ok b'"
    and "incoming' = incoming\<lparr>Order.qty := Order.qty incoming'\<rparr>"
    and "0 <s Order.qty incoming' \<Longrightarrow> side incoming = Buy \<Longrightarrow>
          \<forall>ap \<in> fst ` set (asks b'). Order.price incoming <s ap"
    and "0 <s Order.qty incoming' \<Longrightarrow> side incoming \<noteq> Buy \<Longrightarrow>
          \<forall>bp \<in> fst ` set (bids b'). bp <s Order.price incoming"
proof -
  show "incoming' = incoming\<lparr>Order.qty := Order.qty incoming'\<rparr>"
    using r sweep_taker [of Buy incoming "asks b" trades] sweep_taker [of Sell incoming "bids b" trades]
    by (auto simp: match_def split: if_splits prod.splits)
  show "book_ok b'"
  proof (cases "Order.qty incoming \<le>s 0")
    case True
    with r ok show ?thesis by (simp add: match_def)
  next
    case False
    show ?thesis
    proof (cases "side incoming = Buy")
      case True
      obtain m' where sw: "sweep Buy incoming (asks b) trades = (incoming', m', trades')"
        and b': "b' = b\<lparr>asks := m'\<rparr>"
        using r False True by (auto simp: match_def split: prod.splits)
      from ok have "side_ok cmp_asks Sell (asks b)" by (simp add: book_ok_def)
      from sweep_side_ok [of cmp_asks, OF _ this sw]
      have a: "side_ok cmp_asks Sell m'" and sub: "fst ` set m' \<subseteq> fst ` set (asks b)"
        by simp_all
      from ok have "\<forall>bp \<in> fst ` set (bids b). \<forall>ap \<in> fst ` set (asks b). bp <s ap"
        by (simp add: book_ok_def)
      with sub have "\<forall>bp \<in> fst ` set (bids b). \<forall>ap \<in> fst ` set m'. bp <s ap"
        by (meson subsetD)
      with a ok b' show ?thesis by (simp add: book_ok_def)
    next
      case sell: False
      obtain m' where sw: "sweep Sell incoming (bids b) trades = (incoming', m', trades')"
        and b': "b' = b\<lparr>bids := m'\<rparr>"
        using r False sell by (auto simp: match_def split: prod.splits)
      from ok have "side_ok cmp_bids Buy (bids b)" by (simp add: book_ok_def)
      from sweep_side_ok [of cmp_bids, OF _ this sw]
      have a: "side_ok cmp_bids Buy m'" and sub: "fst ` set m' \<subseteq> fst ` set (bids b)"
        by simp_all
      from ok have "\<forall>bp \<in> fst ` set (bids b). \<forall>ap \<in> fst ` set (asks b). bp <s ap"
        by (simp add: book_ok_def)
      with sub have "\<forall>bp \<in> fst ` set m'. \<forall>ap \<in> fst ` set (asks b). bp <s ap"
        by (meson subsetD)
      with a ok b' show ?thesis by (simp add: book_ok_def)
    qed
  qed
  show "\<forall>ap \<in> fst ` set (asks b'). Order.price incoming <s ap"
    if live: "0 <s Order.qty incoming'" and buy: "side incoming = Buy"
  proof (cases "Order.qty incoming \<le>s 0")
    case True
    with r live show ?thesis by (auto simp: match_def)
  next
    case False
    obtain m' where sw: "sweep Buy incoming (asks b) trades = (incoming', m', trades')"
      and b': "b' = b\<lparr>asks := m'\<rparr>"
      using r False buy by (auto simp: match_def split: prod.splits)
    from ok have "sorted_wrt cmp_asks (map fst (asks b))" by (simp add: book_ok_def side_ok_def)
    from sweep_frontier [of cmp_asks, OF this _ sw live] b' show ?thesis
      by (auto simp: price_stops_def cmp_asks_def)
  qed
  show "\<forall>bp \<in> fst ` set (bids b'). bp <s Order.price incoming"
    if live: "0 <s Order.qty incoming'" and sell: "side incoming \<noteq> Buy"
  proof (cases "Order.qty incoming \<le>s 0")
    case True
    with r live show ?thesis by (auto simp: match_def)
  next
    case False
    obtain m' where sw: "sweep Sell incoming (bids b) trades = (incoming', m', trades')"
      and b': "b' = b\<lparr>bids := m'\<rparr>"
      using r False sell by (auto simp: match_def split: prod.splits)
    from ok have "sorted_wrt cmp_bids (map fst (bids b))" by (simp add: book_ok_def side_ok_def)
    from sweep_frontier [of cmp_bids, OF this _ sw live] b' show ?thesis
      by (auto simp: price_stops_def cmp_bids_def)
  qed
qed

lemma add_book_ok:
  assumes ok: "book_ok b" and pos: "0 <s Order.qty ord"
    and buy: "side ord = Buy \<Longrightarrow> \<forall>ap \<in> fst ` set (asks b). Order.price ord <s ap"
    and sell: "side ord \<noteq> Buy \<Longrightarrow> \<forall>bp \<in> fst ` set (bids b). bp <s Order.price ord"
  shows "book_ok (add b ord)"
proof (cases "side ord = Buy")
  case True
  from ok have "side_ok cmp_bids Buy (bids b)" by (simp add: book_ok_def)
  from insert_order_side_ok [of cmp_bids, OF _ this pos True]
  have s: "side_ok cmp_bids Buy (insert_order cmp_bids (bids b) ord)" by simp
  have "fst ` set (insert_order cmp_bids (bids b) ord) = insert (Order.price ord) (fst ` set (bids b))"
    by (rule insert_order_keys) simp
  moreover from ok have "\<forall>bp \<in> fst ` set (bids b). \<forall>ap \<in> fst ` set (asks b). bp <s ap"
    by (simp add: book_ok_def)
  ultimately
  have "\<forall>bp \<in> fst ` set (insert_order cmp_bids (bids b) ord). \<forall>ap \<in> fst ` set (asks b). bp <s ap"
    using buy [OF True] by simp
  with s ok True show ?thesis
    by (simp add: book_ok_def add_def)
next
  case False
  then have s: "side ord = Sell" by (cases "side ord") auto
  from ok have "side_ok cmp_asks Sell (asks b)" by (simp add: book_ok_def)
  from insert_order_side_ok [of cmp_asks, OF _ this pos s]
  have s': "side_ok cmp_asks Sell (insert_order cmp_asks (asks b) ord)" by simp
  have "fst ` set (insert_order cmp_asks (asks b) ord) = insert (Order.price ord) (fst ` set (asks b))"
    by (rule insert_order_keys) simp
  moreover from ok have "\<forall>bp \<in> fst ` set (bids b). \<forall>ap \<in> fst ` set (asks b). bp <s ap"
    by (simp add: book_ok_def)
  ultimately
  have "\<forall>bp \<in> fst ` set (bids b). \<forall>ap \<in> fst ` set (insert_order cmp_asks (asks b) ord). bp <s ap"
    using sell [OF False] by simp
  with s' ok False show ?thesis
    by (simp add: book_ok_def add_def)
qed

lemma process_book_ok:
  assumes ok: "book_ok (book eng)"
  shows "book_ok (book (fst (process start end' eng order trades)))"
proof -
  obtain order' b' trades' where m: "match (book eng) order trades = (order', b', trades')"
    by (cases "match (book eng) order trades") auto
  note facts = match_book_ok [OF ok m]
  show ?thesis
  proof (cases "0 <s Order.qty order'")
    case False
    with m facts(1) show ?thesis by (simp add: process_def)
  next
    case True
    have f: "side order' = side order" "Order.price order' = Order.price order"
      by (subst facts(2), simp)+
    have "book_ok (add b' order')"
      using facts(3,4) [OF True] f by (intro add_book_ok [OF facts(1) True]) simp_all
    with m True show ?thesis by (simp add: process_def)
  qed
qed

lemma process_all_book_ok:
  "book_ok (book eng) \<Longrightarrow> book_ok (book (fst (process_all eng trades inputs)))"
proof (induction inputs arbitrary: eng trades)
  case Nil
  then show ?case by simp
next
  case (Cons x inputs)
  obtain order start end' where x: "x = (order, start, end')" by (cases x)
  obtain eng' trades' where p: "process start end' eng order trades = (eng', trades')"
    by (cases "process start end' eng order trades")
  from process_book_ok [OF Cons.prems, of start end' order trades] p have "book_ok (book eng')"
    by simp
  from Cons.IH [OF this] p show ?case
    by (simp add: x)
qed

lemma new_engine_book_ok: "book_ok (book new_engine)"
  by (simp add: new_engine_def book_ok_def side_ok_def)

section \<open>Sums of positive quantities\<close>

lemma sint_add_in_range:
  fixes a b :: i64
  assumes "- (2 ^ 63) \<le> sint a + sint b" and "sint a + sint b < 2 ^ 63"
  shows "sint (a + b) = sint a + sint b"
proof -
  from assms have "signed_take_bit 63 (sint a + sint b) = sint a + sint b"
    by (simp add: signed_take_bit_int_eq_self)
  then show ?thesis
    by (simp add: sint_word_ariths)
qed

lemma sint_sum_list_pos:
  fixes ws :: "i64 list"
  assumes "\<forall>w \<in> set ws. 0 <s w" and "(\<Sum>w\<leftarrow>ws. sint w) < 2 ^ 63"
  shows "sint (sum_list ws) = (\<Sum>w\<leftarrow>ws. sint w)"
  using assms
proof (induction ws)
  case Nil
  show ?case by simp
next
  case (Cons w ws)
  from Cons.prems have w: "0 < sint w" and rest: "\<forall>w \<in> set ws. 0 < sint w"
    by (simp_all add: word_sless_alt)
  from rest have nonneg: "0 \<le> (\<Sum>w\<leftarrow>ws. sint w)"
    by (induction ws) auto
  with w Cons.prems(2) have "(\<Sum>w\<leftarrow>ws. sint w) < 2 ^ 63" by simp
  with Cons have ih: "sint (sum_list ws) = (\<Sum>w\<leftarrow>ws. sint w)" by simp
  have "sint (w + sum_list ws) = sint w + sint (sum_list ws)"
    using w nonneg Cons.prems(2) by (intro sint_add_in_range) (simp_all add: ih)
  with ih show ?case by simp
qed

lemma sum_list_sint_pos:
  fixes ws :: "i64 list"
  assumes "ws \<noteq> []" and "\<forall>w \<in> set ws. 0 <s w"
  shows "0 < (\<Sum>w\<leftarrow>ws. sint w)"
proof -
  from assms(2) have "\<forall>w \<in> set ws. 0 < sint w" by (simp add: word_sless_alt)
  then have "0 \<le> (\<Sum>w\<leftarrow>tl ws. sint w)"
    by (intro sum_list_nonneg) (auto dest: list.set_sel(2) [OF assms(1)] simp: less_imp_le)
  moreover from assms have "0 < sint (hd ws)" by (simp add: word_sless_alt)
  moreover from assms(1) have "(\<Sum>w\<leftarrow>ws. sint w) = sint (hd ws) + (\<Sum>w\<leftarrow>tl ws. sint w)"
    by (cases ws) simp_all
  ultimately show ?thesis by simp
qed

section \<open>Fills and what remains of the taker\<close>

lemma walk_level_fills_pos:
  "(\<forall>ord \<in> set (orders level). 0 <s Order.qty ord) \<longrightarrow>
   (\<exists>fills. snd (snd (walk_level incoming p level trades)) = trades @ fills \<and>
      (\<forall>t \<in> set fills. 0 <s Trade.qty t))"
proof (rule walk_level_rule [where P = "\<lambda>incoming level trades r.
    (\<forall>ord \<in> set (orders level). 0 <s Order.qty ord) \<longrightarrow>
    (\<exists>fills. snd (snd r) = trades @ fills \<and> (\<forall>t \<in> set fills. 0 <s Trade.qty t))"], goal_cases)
  case (1 incoming level trades)
  then show ?case by simp
next
  case (2 incoming level trades m ms r)
  show ?case
  proof
    assume pos: "\<forall>ord \<in> set (orders level). 0 <s Order.qty ord"
    with 2 obtain fills where "snd (snd r) = (trades @ [trade_of (id' incoming) p m (Order.qty m)]) @ fills"
      and "\<forall>t \<in> set fills. 0 <s Trade.qty t"
      by auto
    with pos 2(2) have "snd (snd r) = trades @ (trade_of (id' incoming) p m (Order.qty m) # fills) \<and>
        (\<forall>t \<in> set (trade_of (id' incoming) p m (Order.qty m) # fills). 0 <s Trade.qty t)"
      by (simp add: trade_of_def)
    then show "\<exists>fills. snd (snd r) = trades @ fills \<and> (\<forall>t \<in> set fills. 0 <s Trade.qty t)"
      by blast
  qed
next
  case (3 incoming level trades m ms)
  then show ?case by (simp add: trade_of_def)
qed

lemma sweep_fills_pos:
  "(\<forall>(p, level) \<in> set m. \<forall>ord \<in> set (orders level). 0 <s Order.qty ord) \<longrightarrow>
   (\<exists>fills. snd (snd (sweep s incoming m trades)) = trades @ fills \<and>
      (\<forall>t \<in> set fills. 0 <s Trade.qty t))"
proof (rule sweep_rule [where P = "\<lambda>incoming m trades r.
    (\<forall>(p, level) \<in> set m. \<forall>ord \<in> set (orders level). 0 <s Order.qty ord) \<longrightarrow>
    (\<exists>fills. snd (snd r) = trades @ fills \<and> (\<forall>t \<in> set fills. 0 <s Trade.qty t))"], goal_cases)
  case (3 incoming p level m trades q level' trades' r)
  show ?case
  proof
    assume pos: "\<forall>(p, level) \<in> set ((p, level) # m). \<forall>ord \<in> set (orders level). 0 <s Order.qty ord"
    with walk_level_fills_pos [where level = level and incoming = incoming and p = p and trades = trades] 3(3)
    obtain f1 where f1: "trades' = trades @ f1" "\<forall>t \<in> set f1. 0 <s Trade.qty t" by auto
    from pos 3(5) obtain f2 where f2: "snd (snd r) = trades' @ f2" "\<forall>t \<in> set f2. 0 <s Trade.qty t"
      by auto
    from f1 f2 have "snd (snd r) = trades @ (f1 @ f2) \<and> (\<forall>t \<in> set (f1 @ f2). 0 <s Trade.qty t)"
      by auto
    then show "\<exists>fills. snd (snd r) = trades @ fills \<and> (\<forall>t \<in> set fills. 0 <s Trade.qty t)"
      by blast
  qed
next
  case (4 incoming p level m trades q level' trades')
  with walk_level_fills_pos [where level = level and incoming = incoming and p = p and trades = trades] show ?case by auto
qed simp_all

lemma walk_level_no_fill:
  "length trades \<le> length (snd (snd (walk_level incoming p level trades))) \<and>
   (length (snd (snd (walk_level incoming p level trades))) = length trades \<longrightarrow>
      fst (walk_level incoming p level trades) = incoming)"
  by (rule walk_level_rule [where P = "\<lambda>incoming level trades r.
    length trades \<le> length (snd (snd r)) \<and> (length (snd (snd r)) = length trades \<longrightarrow> fst r = incoming)"])
    auto

lemma sweep_no_fill:
  "length trades \<le> length (snd (snd (sweep s incoming m trades))) \<and>
   (length (snd (snd (sweep s incoming m trades))) = length trades \<longrightarrow>
      fst (sweep s incoming m trades) = incoming)"
proof (rule sweep_rule [where P = "\<lambda>incoming m trades r.
    length trades \<le> length (snd (snd r)) \<and> (length (snd (snd r)) = length trades \<longrightarrow> fst r = incoming)"],
    goal_cases)
  case (3 incoming p level m trades q level' trades' r)
  with walk_level_no_fill [where level = level and incoming = incoming and p = p and trades = trades] show ?case by auto
next
  case (4 incoming p level m trades q level' trades')
  with walk_level_no_fill [where level = level and incoming = incoming and p = p and trades = trades] show ?case by auto
qed simp_all

lemma map_index_applied:
  assumes "\<And>level. x \<in> set (orders (f level))"
  shows "\<exists>(p, level) \<in> set (map_index cmp k f m). x \<in> set (orders level)"
proof (induction m)
  case Nil
  show ?case by (simp add: assms)
next
  case (Cons e m)
  obtain k' v where e: "e = (k', v)" by (cases e)
  show ?case
  proof (cases "cmp k k'")
    case True
    then show ?thesis by (simp add: e assms)
  next
    case False
    show ?thesis
    proof (cases "cmp k' k")
      case True
      with False Cons.IH show ?thesis by (auto simp: e)
    next
      case False
      with \<open>\<not> cmp k k'\<close> show ?thesis by (simp add: e assms)
    qed
  qed
qed

lemma add_rests: "ord \<in> set (resting_orders (add b ord))"
proof -
  have "\<exists>(p, level) \<in> set (insert_order cmp m ord). ord \<in> set (orders level)" for cmp m
    unfolding insert_order_def by (rule map_index_applied) simp
  from this [of cmp_bids "bids b"] this [of cmp_asks "asks b"] show ?thesis
    by (auto simp: resting_orders_def add_def)
qed

lemma book_ok_pos:
  "book_ok b \<Longrightarrow> (\<forall>(p, level) \<in> set (bids b). \<forall>ord \<in> set (orders level). 0 <s Order.qty ord) \<and>
     (\<forall>(p, level) \<in> set (asks b). \<forall>ord \<in> set (orders level). 0 <s Order.qty ord)"
  by (auto simp: book_ok_def side_ok_def level_ok_def order_ok_def)

lemma match_mass:
  assumes ok: "book_ok b" and pos: "0 \<le>s Order.qty incoming"
    and m: "match b incoming trades = (incoming', b', trades')"
  shows "\<exists>fills. trades' = trades @ fills \<and>
    (\<Sum>t\<leftarrow>fills. sint (Trade.qty t)) + sint (Order.qty incoming') = sint (Order.qty incoming) \<and>
    0 \<le>s Order.qty incoming' \<and> (\<forall>t \<in> set fills. 0 <s Trade.qty t)"
proof (cases "Order.qty incoming \<le>s 0")
  case True
  with m pos show ?thesis by (auto simp: match_def)
next
  case False
  define s where "s = (if side incoming = Buy then Buy else Sell)"
  define opp where "opp = (if side incoming = Buy then asks b else bids b)"
  from m False obtain m' where sw: "sweep s incoming opp trades = (incoming', m', trades')"
    by (auto simp: match_def s_def opp_def split: if_splits prod.splits)
  from book_ok_pos [OF ok]
  have mk: "\<forall>(p, level) \<in> set opp. \<forall>ord \<in> set (orders level). 0 <s Order.qty ord"
    by (simp add: opp_def)
  from sweep_fills_pos [where m = opp and s = s and incoming = incoming and trades = trades] mk sw
  obtain fills where f: "trades' = trades @ fills" "\<forall>t \<in> set fills. 0 <s Trade.qty t"
    by auto
  from sweep_mass [where m = opp and s = s and incoming = incoming and trades = trades] mk pos sw f(1)
  have "(\<Sum>t\<leftarrow>fills. sint (Trade.qty t)) + sint (Order.qty incoming') = sint (Order.qty incoming) \<and>
      0 \<le>s Order.qty incoming'"
    by simp
  with f show ?thesis by blast
qed

section \<open>The loops return\<close>

lemma walk_level_loop_total:
  "walk_level_loop incoming p level trades = Some (walk_level incoming p level trades)"
proof (induction incoming p level trades rule: walk_level.induct)
  case (1 incoming p level trades)
  show ?case
  proof (cases "0 <s Order.qty incoming \<and> orders level \<noteq> []")
    case True
    obtain i1 l1 t1 where
      ff: "fill_front incoming p level (hd (orders level)) (tl (orders level)) trades = (i1, l1, t1)"
      by (cases "fill_front incoming p level (hd (orders level)) (tl (orders level)) trades") auto
    from "1.IH" [OF True ff [symmetric] refl] True ff show ?thesis
      by (simp add: walk_level_loop.simps [of incoming] walk_level.simps [of incoming])
  next
    case False
    then show ?thesis
      by (subst walk_level_loop.simps) (auto simp: walk_level_stop)
  qed
qed

lemma sweep_loop_total:
  "sweep_loop s incoming m trades = Some (sweep s incoming m trades)"
proof (induction s incoming m trades rule: sweep.induct)
  case (1 s incoming m trades)
  show ?case
  proof (cases "0 <s Order.qty incoming \<and> m \<noteq> []")
    case False
    then show ?thesis
      by (subst sweep_loop.simps) (auto simp: sweep_stop)
  next
    case True
    obtain p level where hd: "hd m = (p, level)" by (cases "hd m")
    show ?thesis
    proof (cases "price_stops s (Order.price incoming) p")
      case stops: True
      with True hd show ?thesis
        by (simp add: sweep_loop.simps [of s incoming] sweep.simps [of s incoming])
    next
      case go: False
      obtain i1 l1 t1 where w: "walk_level incoming p level trades = (i1, l1, t1)"
        by (cases "walk_level incoming p level trades") auto
      show ?thesis
      proof (cases "orders l1 = []")
        case e: True
        from "1.IH"(1) [OF True hd [symmetric] go w [symmetric] refl e] True hd go w e show ?thesis
          by (simp add: sweep_loop.simps [of s incoming] sweep.simps [of s incoming] walk_level_loop_total)
      next
        case ne: False
        from "1.IH"(2) [OF True hd [symmetric] go w [symmetric] refl ne] True hd go w ne show ?thesis
          by (simp add: sweep_loop.simps [of s incoming] sweep.simps [of s incoming] walk_level_loop_total)
      qed
    qed
  qed
qed

section \<open>Matching does not read the time stamps or the clock\<close>

lemma same_fields_untimed: "same_fields a b \<longleftrightarrow> untimed a = untimed b"
  by (cases a, cases b) (auto simp: same_fields_def untimed_def)

lemma untimed_simps:
  "Order.qty (untimed ord) = Order.qty ord"
  "id' (untimed ord) = id' ord"
  "side (untimed ord) = side ord"
  "Order.price (untimed ord) = Order.price ord"
  "untimed (ord\<lparr>Order.qty := q\<rparr>) = (untimed ord)\<lparr>Order.qty := q\<rparr>"
  "trade_of tid p (untimed ord) q = trade_of tid p ord q"
  by (simp_all add: untimed_def trade_of_def)

lemma untimed_level_simps:
  "orders (untimed_level level) = map untimed (orders level)"
  "total_qty (untimed_level level) = total_qty level"
  "untimed_level (level\<lparr>total_qty := t, orders := os\<rparr>) =
     (untimed_level level)\<lparr>total_qty := t, orders := map untimed os\<rparr>"
  by (simp_all add: untimed_level_def)

lemma untimed_map_simps:
  "untimed_map [] = []"
  "untimed_map ((p, level) # m) = (p, untimed_level level) # untimed_map m"
  "untimed_map m = [] \<longleftrightarrow> m = []"
  by (simp_all add: untimed_map_def)

lemma walk_level_untimed:
  "walk_level (untimed incoming) p (untimed_level level) trades =
     (untimed (fst (walk_level incoming p level trades)),
      untimed_level (fst (snd (walk_level incoming p level trades))),
      snd (snd (walk_level incoming p level trades)))"
proof (rule walk_level_rule [where P = "\<lambda>incoming level trades r.
    walk_level (untimed incoming) p (untimed_level level) trades =
      (untimed (fst r), untimed_level (fst (snd r)), snd (snd r))"], goal_cases)
  case (1 incoming level trades)
  then have "\<not> (0 <s Order.qty (untimed incoming) \<and> orders (untimed_level level) \<noteq> [])"
    by (simp add: untimed_simps untimed_level_simps)
  then show ?case by (simp add: walk_level_stop)
next
  case (2 incoming level trades m ms r)
  have "walk_level (untimed incoming) p (untimed_level level) trades =
      walk_level ((untimed incoming)\<lparr>Order.qty := Order.qty (untimed incoming) - Order.qty (untimed m)\<rparr>) p
        ((untimed_level level)\<lparr>total_qty := total_qty (untimed_level level) - Order.qty (untimed m),
            orders := map untimed ms\<rparr>)
        (trades @ [trade_of (id' (untimed incoming)) p (untimed m) (Order.qty (untimed m))])"
    using 2(1,2,3) by (intro walk_level_pop) (simp_all add: untimed_simps untimed_level_simps)
  with 2(4) show ?case
    by (simp add: untimed_simps untimed_level_simps)
next
  case (3 incoming level trades m ms)
  have "walk_level (untimed incoming) p (untimed_level level) trades =
      ((untimed incoming)\<lparr>Order.qty := 0\<rparr>,
       (untimed_level level)\<lparr>total_qty := total_qty (untimed_level level) - Order.qty (untimed incoming),
           orders := (untimed m)\<lparr>Order.qty := Order.qty (untimed m) - Order.qty (untimed incoming)\<rparr> # map untimed ms\<rparr>,
       trades @ [trade_of (id' (untimed incoming)) p (untimed m) (Order.qty (untimed incoming))])"
    using 3 by (intro walk_level_partial) (simp_all add: untimed_simps untimed_level_simps)
  then show ?case
    by (simp add: untimed_simps untimed_level_simps)
qed

lemma sweep_untimed:
  "sweep s (untimed incoming) (untimed_map m) trades =
     (untimed (fst (sweep s incoming m trades)),
      untimed_map (fst (snd (sweep s incoming m trades))),
      snd (snd (sweep s incoming m trades)))"
proof (rule sweep_rule [where P = "\<lambda>incoming m trades r.
    sweep s (untimed incoming) (untimed_map m) trades =
      (untimed (fst r), untimed_map (fst (snd r)), snd (snd r))"], goal_cases)
  case (1 incoming m trades)
  then have "\<not> (0 <s Order.qty (untimed incoming) \<and> untimed_map m \<noteq> [])"
    by (simp add: untimed_simps untimed_map_simps)
  then show ?case by (simp add: sweep_stop)
next
  case (2 incoming p level m trades)
  then have "sweep s (untimed incoming) ((p, untimed_level level) # untimed_map m) trades =
      (untimed incoming, (p, untimed_level level) # untimed_map m, trades)"
    by (intro sweep_break) (simp_all add: untimed_simps)
  then show ?case by (simp add: untimed_map_simps)
next
  case (3 incoming p level m trades q level' trades' r)
  from walk_level_untimed [of incoming p level trades] 3(3)
  have w: "walk_level (untimed incoming) p (untimed_level level) trades =
      (untimed (incoming\<lparr>Order.qty := q\<rparr>), untimed_level level', trades')"
    by simp
  have "sweep s (untimed incoming) ((p, untimed_level level) # untimed_map m) trades =
      sweep s (untimed (incoming\<lparr>Order.qty := q\<rparr>)) (untimed_map m) trades'"
    using 3(1,2,4) by (intro sweep_erase [OF _ _ w]) (simp_all add: untimed_simps untimed_level_simps)
  with 3(5) show ?case by (simp add: untimed_map_simps)
next
  case (4 incoming p level m trades q level' trades')
  from walk_level_untimed [of incoming p level trades] 4(3)
  have w: "walk_level (untimed incoming) p (untimed_level level) trades =
      (untimed (incoming\<lparr>Order.qty := q\<rparr>), untimed_level level', trades')"
    by simp
  have "sweep s (untimed incoming) ((p, untimed_level level) # untimed_map m) trades =
      (untimed (incoming\<lparr>Order.qty := q\<rparr>), (p, untimed_level level') # untimed_map m, trades')"
    using 4(1,2,4) by (intro sweep_keep [OF _ _ w]) (simp_all add: untimed_simps untimed_level_simps)
  then show ?case by (simp add: untimed_map_simps)
qed

lemma map_index_untimed:
  assumes "\<And>level. untimed_level (f level) = g (untimed_level level)"
  shows "untimed_map (map_index cmp k f m) = map_index cmp k g (untimed_map m)"
proof (induction m)
  case Nil
  have "untimed_level empty_level = empty_level"
    by (simp add: untimed_level_def empty_level_def)
  with assms [of empty_level] show ?case by (simp add: untimed_map_simps)
next
  case (Cons e m)
  obtain k' v where e: "e = (k', v)" by (cases e)
  have "untimed_level empty_level = empty_level"
    by (simp add: untimed_level_def empty_level_def)
  with Cons.IH assms [of empty_level] assms [of v] show ?case
    by (simp add: e untimed_map_simps)
qed

lemma insert_order_untimed:
  "untimed_map (insert_order cmp m ord) = insert_order cmp (untimed_map m) (untimed ord)"
  unfolding insert_order_def untimed_simps
  by (rule map_index_untimed) (simp add: untimed_level_def)

lemma add_untimed: "untimed_book (add b ord) = add (untimed_book b) (untimed ord)"
  by (simp add: add_def untimed_book_def insert_order_untimed untimed_simps)

lemma match_untimed:
  "match (untimed_book b) (untimed incoming) trades =
     (untimed (fst (match b incoming trades)),
      untimed_book (fst (snd (match b incoming trades))),
      snd (snd (match b incoming trades)))"
proof (cases "Order.qty incoming \<le>s 0")
  case True
  then show ?thesis by (simp add: match_def untimed_simps)
next
  case False
  then show ?thesis
    using sweep_untimed [of Buy incoming "asks b" trades] sweep_untimed [of Sell incoming "bids b" trades]
    by (simp add: match_def untimed_simps untimed_book_def split: prod.splits)
qed

lemma process_untimed:
  assumes b: "untimed_book (book e1) = untimed_book (book e2)" and o: "untimed o1 = untimed o2"
  shows "snd (process s1 t1 e1 o1 trades) = snd (process s2 t2 e2 o2 trades) \<and>
    untimed_book (book (fst (process s1 t1 e1 o1 trades))) =
    untimed_book (book (fst (process s2 t2 e2 o2 trades)))"
proof -
  obtain o1' b1' ts1 where m1: "match (book e1) o1 trades = (o1', b1', ts1)"
    by (cases "match (book e1) o1 trades") auto
  obtain o2' b2' ts2 where m2: "match (book e2) o2 trades = (o2', b2', ts2)"
    by (cases "match (book e2) o2 trades") auto
  from match_untimed [of "book e1" o1 trades] match_untimed [of "book e2" o2 trades] b o m1 m2
  have eq: "untimed o1' = untimed o2'" "untimed_book b1' = untimed_book b2'" "ts1 = ts2"
    by simp_all
  from eq(1) have q: "Order.qty o1' = Order.qty o2'"
    by (metis untimed_simps(1))
  from m1 m2 eq q show ?thesis
    by (simp add: process_def add_untimed)
qed

lemma process_all_untimed:
  assumes "list_all2 (\<lambda>(a, s, e) (b, s', e'). same_fields a b) xs ys"
    and "untimed_book (book e1) = untimed_book (book e2)"
  shows "snd (process_all e1 trades xs) = snd (process_all e2 trades ys) \<and>
    untimed_book (book (fst (process_all e1 trades xs))) =
    untimed_book (book (fst (process_all e2 trades ys)))"
  using assms
proof (induction xs ys arbitrary: e1 e2 trades rule: list_all2_induct)
  case Nil
  then show ?case by simp
next
  case (Cons x xs y ys)
  obtain o1 s1 t1 where x: "x = (o1, s1, t1)" by (cases x)
  obtain o2 s2 t2 where y: "y = (o2, s2, t2)" by (cases y)
  from Cons.hyps(1) have o: "untimed o1 = untimed o2"
    by (simp add: x y same_fields_untimed)
  obtain e1' ts1 where p1: "process s1 t1 e1 o1 trades = (e1', ts1)"
    by (cases "process s1 t1 e1 o1 trades")
  obtain e2' ts2 where p2: "process s2 t2 e2 o2 trades = (e2', ts2)"
    by (cases "process s2 t2 e2 o2 trades")
  from process_untimed [OF Cons.prems o, of s1 t1 trades s2 t2] p1 p2
  have "ts1 = ts2" "untimed_book (book e1') = untimed_book (book e2')"
    by simp_all
  with Cons.IH [of e1' e2' ts1] p1 p2 show ?case
    by (simp add: x y)
qed

lemma process_all_clock:
  assumes "map fst xs = map fst ys" and "book e1 = book e2"
  shows "snd (process_all e1 trades xs) = snd (process_all e2 trades ys) \<and>
    book (fst (process_all e1 trades xs)) = book (fst (process_all e2 trades ys))"
  using assms
proof (induction xs arbitrary: ys e1 e2 trades)
  case Nil
  then show ?case by simp
next
  case (Cons x xs)
  from Cons.prems(1) obtain y ys' where ys: "ys = y # ys'" "fst x = fst y" "map fst xs = map fst ys'"
    by (cases ys) auto
  obtain o1 s1 t1 where x: "x = (o1, s1, t1)" by (cases x)
  from ys(2) x obtain s2 t2 where y: "y = (o1, s2, t2)" by (cases y) auto
  obtain e1' ts1 where p1: "process s1 t1 e1 o1 trades = (e1', ts1)"
    by (cases "process s1 t1 e1 o1 trades")
  obtain e2' ts2 where p2: "process s2 t2 e2 o1 trades = (e2', ts2)"
    by (cases "process s2 t2 e2 o1 trades")
  from p1 p2 Cons.prems(2) have "ts1 = ts2" "book e1' = book e2'"
    by (auto simp: process_def split: prod.splits)
  with Cons.IH [OF ys(3), of e1' e2' ts1] p1 p2 show ?case
    by (simp add: x y ys(1))
qed

section \<open>Trades consume the queue from its front\<close>

lemma consumes_refl: "consumes tid q [] q"
  unfolding consumes_def by (rule exI [of _ "[]"], rule exI [of _ q]) (simp add: full_fills_def)

lemma consumes_full:
  assumes "consumes tid q fills q'"
  shows "consumes tid ((p, m) # q) (trade_of tid p m (Order.qty m) # fills) q'"
proof -
  from assms obtain gone rest where q: "q = gone @ rest"
    and c: "fills = full_fills tid gone \<and> q' = rest \<or>
         (\<exists>p m x rest'. rest = (p, m) # rest' \<and>
            fills = full_fills tid gone @ [trade_of tid p m x] \<and>
            q' = (p, m\<lparr>Order.qty := Order.qty m - x\<rparr>) # rest')"
    unfolding consumes_def by blast
  show ?thesis
    unfolding consumes_def
    by (rule exI [of _ "(p, m) # gone"], rule exI [of _ rest]) (use q c in \<open>force simp: full_fills_def\<close>)
qed

lemma consumes_partial:
  "consumes tid ((p, m) # q) [trade_of tid p m x] ((p, m\<lparr>Order.qty := Order.qty m - x\<rparr>) # q)"
  unfolding consumes_def
  by (rule exI [of _ "[]"], rule exI [of _ "(p, m) # q"]) (simp add: full_fills_def, blast)

lemma consumes_append_rest:
  assumes "consumes tid q fills q'"
  shows "consumes tid (q @ r) fills (q' @ r)"
proof -
  from assms obtain gone rest where q: "q = gone @ rest"
    and c: "fills = full_fills tid gone \<and> q' = rest \<or>
         (\<exists>p m x rest'. rest = (p, m) # rest' \<and>
            fills = full_fills tid gone @ [trade_of tid p m x] \<and>
            q' = (p, m\<lparr>Order.qty := Order.qty m - x\<rparr>) # rest')"
    unfolding consumes_def by blast
  show ?thesis
    unfolding consumes_def
    by (rule exI [of _ "gone"], rule exI [of _ "rest @ r"]) (use q c in force)
qed

lemma consumes_level_done:
  assumes l: "consumes tid l f1 []" and r: "consumes tid q f2 q'"
  shows "consumes tid (l @ q) (f1 @ f2) q'"
proof -
  from l have f1: "f1 = full_fills tid l"
    unfolding consumes_def by auto
  from r obtain gone rest where q: "q = gone @ rest"
    and c: "f2 = full_fills tid gone \<and> q' = rest \<or>
         (\<exists>p m x rest'. rest = (p, m) # rest' \<and>
            f2 = full_fills tid gone @ [trade_of tid p m x] \<and>
            q' = (p, m\<lparr>Order.qty := Order.qty m - x\<rparr>) # rest')"
    unfolding consumes_def by blast
  show ?thesis
    unfolding consumes_def
    by (rule exI [of _ "l @ gone"], rule exI [of _ rest]) (use q c f1 in \<open>force simp: full_fills_def\<close>)
qed

lemma walk_level_consumes:
  "\<exists>fills. snd (snd (walk_level incoming p level trades)) = trades @ fills \<and>
     consumes (id' incoming) (map (Pair p) (orders level)) fills
       (map (Pair p) (orders (fst (snd (walk_level incoming p level trades)))))"
proof (rule walk_level_rule [where P = "\<lambda>incoming level trades r.
    \<exists>fills. snd (snd r) = trades @ fills \<and>
      consumes (id' incoming) (map (Pair p) (orders level)) fills (map (Pair p) (orders (fst (snd r))))"],
    goal_cases)
  case (1 incoming level trades)
  then show ?case by (simp add: consumes_refl)
next
  case (2 incoming level trades m ms r)
  then obtain fills where r: "snd (snd r) = (trades @ [trade_of (id' incoming) p m (Order.qty m)]) @ fills"
    and c: "consumes (id' incoming) (map (Pair p) ms) fills (map (Pair p) (orders (fst (snd r))))"
    by auto
  from consumes_full [OF c, of p m] 2(2) r
  have "snd (snd r) = trades @ (trade_of (id' incoming) p m (Order.qty m) # fills) \<and>
      consumes (id' incoming) (map (Pair p) (orders level))
        (trade_of (id' incoming) p m (Order.qty m) # fills) (map (Pair p) (orders (fst (snd r))))"
    by simp
  then show ?case by blast
next
  case (3 incoming level trades m ms)
  then show ?case by (simp add: consumes_partial)
qed

lemma queue_of_Cons: "queue_of ((p, level) # m) = map (Pair p) (orders level) @ queue_of m"
  by (simp add: queue_of_def)

lemma sweep_consumes:
  "\<exists>fills. snd (snd (sweep s incoming m trades)) = trades @ fills \<and>
     consumes (id' incoming) (queue_of m) fills (queue_of (fst (snd (sweep s incoming m trades))))"
proof (rule sweep_rule [where P = "\<lambda>incoming m trades r.
    \<exists>fills. snd (snd r) = trades @ fills \<and>
      consumes (id' incoming) (queue_of m) fills (queue_of (fst (snd r)))"], goal_cases)
  case (1 incoming m trades)
  then show ?case by (simp add: consumes_refl)
next
  case (2 incoming p level m trades)
  then show ?case by (simp add: consumes_refl)
next
  case (3 incoming p level m trades q level' trades' r)
  from walk_level_consumes [of incoming p level trades] 3(3,4)
  obtain f1 where f1: "trades' = trades @ f1"
    and c1: "consumes (id' incoming) (map (Pair p) (orders level)) f1 []"
    by auto
  from 3(5) obtain f2 where f2: "snd (snd r) = trades' @ f2"
    and c2: "consumes (id' incoming) (queue_of m) f2 (queue_of (fst (snd r)))"
    by auto
  from consumes_level_done [OF c1 c2] f1 f2
  have "snd (snd r) = trades @ (f1 @ f2) \<and>
      consumes (id' incoming) (queue_of ((p, level) # m)) (f1 @ f2) (queue_of (fst (snd r)))"
    by (simp add: queue_of_Cons)
  then show ?case by blast
next
  case (4 incoming p level m trades q level' trades')
  from walk_level_consumes [of incoming p level trades] 4(3)
  obtain f1 where f1: "trades' = trades @ f1"
    and c1: "consumes (id' incoming) (map (Pair p) (orders level)) f1 (map (Pair p) (orders level'))"
    by auto
  from consumes_append_rest [OF c1, of "queue_of m"] f1 show ?case
    by (simp add: queue_of_Cons)
qed

lemma consumes_index:
  assumes "consumes tid q fills q'"
  shows "length fills \<le> length q"
    and "\<And>j. j < length fills \<Longrightarrow>
      taker_id (fills ! j) = tid \<and> maker_id (fills ! j) = id' (snd (q ! j)) \<and>
      Trade.price (fills ! j) = fst (q ! j) \<and>
      (Suc j < length fills \<longrightarrow> Trade.qty (fills ! j) = Order.qty (snd (q ! j)))"
    and "q' = drop (length fills) q \<or>
      (fills \<noteq> [] \<and>
       q' = (fst (q ! (length fills - 1)),
             (snd (q ! (length fills - 1)))
               \<lparr>Order.qty := Order.qty (snd (q ! (length fills - 1))) - Trade.qty (last fills)\<rparr>)
            # drop (length fills) q)"
proof -
  from assms obtain gone rest where q: "q = gone @ rest"
    and c: "fills = full_fills tid gone \<and> q' = rest \<or>
         (\<exists>p m x rest'. rest = (p, m) # rest' \<and>
            fills = full_fills tid gone @ [trade_of tid p m x] \<and>
            q' = (p, m\<lparr>Order.qty := Order.qty m - x\<rparr>) # rest')"
    unfolding consumes_def by blast
  have full: "taker_id (full_fills tid gone ! j) = tid \<and>
      maker_id (full_fills tid gone ! j) = id' (snd (gone ! j)) \<and>
      Trade.price (full_fills tid gone ! j) = fst (gone ! j) \<and>
      Trade.qty (full_fills tid gone ! j) = Order.qty (snd (gone ! j))" if "j < length gone" for j
    using that by (simp add: full_fills_def trade_of_def split: prod.splits)
  have len: "length (full_fills tid gone) = length gone" "full_fills tid gone = [] \<longleftrightarrow> gone = []"
    by (simp_all add: full_fills_def)
  from c show "length fills \<le> length q"
    by (auto simp: q len)
  show "taker_id (fills ! j) = tid \<and> maker_id (fills ! j) = id' (snd (q ! j)) \<and>
      Trade.price (fills ! j) = fst (q ! j) \<and>
      (Suc j < length fills \<longrightarrow> Trade.qty (fills ! j) = Order.qty (snd (q ! j)))"
    if j: "j < length fills" for j
  proof (cases "j < length gone")
    case True
    with c full [OF True] show ?thesis
      by (auto simp: q nth_append len)
  next
    case False
    with c j len obtain p m x rest' where r: "rest = (p, m) # rest'"
      and f: "fills = full_fills tid gone @ [trade_of tid p m x]" and jj: "j = length gone"
      by auto
    then show ?thesis
      by (simp add: q nth_append len trade_of_def)
  qed
  from c show "q' = drop (length fills) q \<or>
      (fills \<noteq> [] \<and>
       q' = (fst (q ! (length fills - 1)),
             (snd (q ! (length fills - 1)))
               \<lparr>Order.qty := Order.qty (snd (q ! (length fills - 1))) - Trade.qty (last fills)\<rparr>)
            # drop (length fills) q)"
    by (auto simp: q len nth_append trade_of_def)
qed

lemma queue_of_sorted:
  assumes c: "cmp = cmp_asks \<or> cmp = cmp_bids" and s: "sorted_wrt cmp (map fst m)"
  shows "sorted_wrt (\<lambda>a b. \<not> cmp (fst b) (fst a)) (queue_of m)"
  using s
proof (induction m)
  case Nil
  show ?case by (simp add: queue_of_def)
next
  case (Cons e m)
  obtain p level where e: "e = (p, level)" by (cases e)
  from c have irrefl: "\<not> cmp p p" and asym: "\<And>k. cmp p k \<Longrightarrow> \<not> cmp k p"
    by (auto simp: cmp_asks_def cmp_bids_def)
  from Cons.prems have later: "\<forall>k \<in> fst ` set m. cmp p k" and tl: "sorted_wrt cmp (map fst m)"
    by (simp_all add: e)
  have keys: "fst ` set (queue_of m) \<subseteq> fst ` set m"
    by (force simp: queue_of_def)
  have "sorted_wrt (\<lambda>a b. \<not> cmp (fst b) (fst a)) (map (Pair p) (orders level))"
    by (simp add: sorted_wrt_map irrefl sorted_wrt_true)
  moreover have "\<forall>a \<in> set (map (Pair p) (orders level)). \<forall>b \<in> set (queue_of m). \<not> cmp (fst b) (fst a)"
    using later keys asym by fastforce
  ultimately show ?case
    using Cons.IH [OF tl] by (simp add: e queue_of_Cons sorted_wrt_append)
qed

lemma sorted_wrt_nth_less:
  assumes "sorted_wrt (\<lambda>a b. \<not> R b a) xs" and "i < length xs" and "j < length xs" and "R (xs ! i) (xs ! j)"
    and irrefl: "\<And>a. \<not> R a a"
  shows "i < j"
proof (rule ccontr)
  assume "\<not> i < j"
  then consider "j < i" | "i = j" by linarith
  then show False
  proof cases
    case 1
    with assms(1,2) have "\<not> R (xs ! i) (xs ! j)"
      by (simp add: sorted_wrt_iff_nth_less)
    with assms(4) show False by simp
  next
    case 2
    with assms(4) irrefl show False by simp
  qed
qed

lemma match_consumes:
  assumes "match b incoming trades = (incoming', b', trades')"
  shows "\<exists>fills. trades' = trades @ fills \<and>
    consumes (id' incoming) (queue_of (opposite b (side incoming))) fills
      (queue_of (opposite b' (side incoming)))"
proof (cases "Order.qty incoming \<le>s 0")
  case True
  with assms show ?thesis by (auto simp: match_def consumes_refl)
next
  case False
  show ?thesis
  proof (cases "side incoming")
    case Buy
    with assms False sweep_consumes [of Buy incoming "asks b" trades] show ?thesis
      by (auto simp: match_def opposite_def split: prod.splits)
  next
    case Sell
    with assms False sweep_consumes [of Sell incoming "bids b" trades] show ?thesis
      by (auto simp: match_def opposite_def split: prod.splits)
  qed
qed

text \<open>Time priority is insertion order: \<^verbatim>\<open>add\<close> appends to the queue of the order's level.\<close>

lemma insert_order_fifo:
  assumes c: "cmp = cmp_asks \<or> cmp = cmp_bids" and s: "sorted_wrt cmp (map fst m)"
    and mem: "(Order.price ord, level) \<in> set m"
  shows "(Order.price ord,
          level\<lparr>total_qty := total_qty level + Order.qty ord, orders := orders level @ [ord]\<rparr>)
         \<in> set (insert_order cmp m ord)"
  using s mem unfolding insert_order_def
proof (induction m)
  case Nil
  then show ?case by simp
next
  case (Cons e m)
  let ?k = "Order.price ord"
  obtain k' v where e: "e = (k', v)" by (cases e)
  from c have irrefl: "\<And>a. \<not> cmp a a" and asym: "\<And>a b. cmp a b \<Longrightarrow> \<not> cmp b a"
    by (auto simp: cmp_asks_def cmp_bids_def)
  from Cons.prems(1) have later: "\<forall>k \<in> fst ` set m. cmp k' k" and tl: "sorted_wrt cmp (map fst m)"
    by (simp_all add: e)
  from Cons.prems(2) consider "k' = ?k" "v = level" | "(?k, level) \<in> set m"
    by (auto simp: e)
  then show ?case
  proof cases
    case 1
    with irrefl show ?thesis by (simp add: e)
  next
    case 2
    then have "?k \<in> fst ` set m" by force
    with later have lt: "cmp k' ?k" by blast
    with asym have "\<not> cmp ?k k'" by blast
    with lt Cons.IH [OF tl 2] show ?thesis by (simp add: e)
  qed
qed

section \<open>Trades execute at crossable levels\<close>

lemma walk_level_fills_price:
  "\<exists>fills. snd (snd (walk_level incoming p level trades)) = trades @ fills \<and>
      (\<forall>t \<in> set fills. Trade.price t = p)"
proof (rule walk_level_rule [where P = "\<lambda>incoming level trades r.
    \<exists>fills. snd (snd r) = trades @ fills \<and> (\<forall>t \<in> set fills. Trade.price t = p)"], goal_cases)
  case (1 incoming level trades)
  then show ?case by simp
next
  case (2 incoming level trades m ms r)
  then obtain fills where "snd (snd r) = (trades @ [trade_of (id' incoming) p m (Order.qty m)]) @ fills"
    and "\<forall>t \<in> set fills. Trade.price t = p"
    by auto
  then have "snd (snd r) = trades @ (trade_of (id' incoming) p m (Order.qty m) # fills) \<and>
      (\<forall>t \<in> set (trade_of (id' incoming) p m (Order.qty m) # fills). Trade.price t = p)"
    by (simp add: trade_of_def)
  then show ?case by blast
next
  case (3 incoming level trades m ms)
  then show ?case by (simp add: trade_of_def)
qed

lemma sweep_fills_cross:
  "\<exists>fills. snd (snd (sweep s incoming m trades)) = trades @ fills \<and>
      (\<forall>t \<in> set fills. \<not> price_stops s (Order.price incoming) (Trade.price t))"
proof (rule sweep_rule [where P = "\<lambda>incoming m trades r.
    \<exists>fills. snd (snd r) = trades @ fills \<and>
      (\<forall>t \<in> set fills. \<not> price_stops s (Order.price incoming) (Trade.price t))"], goal_cases)
  case (3 incoming p level m trades q level' trades' r)
  from walk_level_fills_price [of incoming p level trades] 3(3)
  obtain f1 where f1: "trades' = trades @ f1" "\<forall>t \<in> set f1. Trade.price t = p" by auto
  from 3(5) obtain f2 where f2: "snd (snd r) = trades' @ f2"
    "\<forall>t \<in> set f2. \<not> price_stops s (Order.price incoming) (Trade.price t)"
    by auto
  from f1 f2 3(2) have "snd (snd r) = trades @ (f1 @ f2) \<and>
      (\<forall>t \<in> set (f1 @ f2). \<not> price_stops s (Order.price incoming) (Trade.price t))"
    by auto
  then show ?case by blast
next
  case (4 incoming p level m trades q level' trades')
  with walk_level_fills_price [of incoming p level trades] show ?case by auto
qed simp_all

lemma match_fills_cross:
  assumes "match b incoming trades = (incoming', b', trades')"
  shows "\<forall>t \<in> set (drop (length trades) trades').
    \<not> price_stops (side incoming) (Order.price incoming) (Trade.price t)"
proof (cases "Order.qty incoming \<le>s 0")
  case True
  with assms show ?thesis by (auto simp: match_def)
next
  case False
  show ?thesis
  proof (cases "side incoming")
    case Buy
    with assms False sweep_fills_cross [of Buy incoming "asks b" trades] show ?thesis
      by (auto simp: match_def split: prod.splits)
  next
    case Sell
    with assms False sweep_fills_cross [of Sell incoming "bids b" trades] show ?thesis
      by (auto simp: match_def split: prod.splits)
  qed
qed

lemma queue_of_prices:
  assumes "side_ok cmp s m" and "(p, ord) \<in> set (queue_of m)"
  shows "Order.price ord = p"
  using assms by (auto simp: queue_of_def side_ok_def level_ok_def order_ok_def)

section \<open>Detaching an order\<close>

lemma side_orders_simps:
  "side_orders [] = []"
  "side_orders ((k, level) # m) = orders level @ side_orders m"
  by (simp_all add: side_orders_def)

lemma side_orders_mem:
  "(p, level) \<in> set m \<Longrightarrow> ord \<in> set (orders level) \<Longrightarrow> ord \<in> set (side_orders m)"
  by (force simp: side_orders_def)

lemma remove1_id:
  assumes "distinct (map id' os)" and "ord \<in> set os"
  shows "id' ord \<notin> id' ` set (remove1 ord os)"
proof
  assume "id' ord \<in> id' ` set (remove1 ord os)"
  then obtain x where x: "x \<in> set (remove1 ord os)" "id' x = id' ord" by auto
  from assms(1) have d: "distinct os" by (simp add: distinct_map)
  with x(1) have "x \<in> set os" "x \<noteq> ord" by simp_all
  with assms x(2) show False
    by (meson distinct_map inj_onD)
qed

lemma detach_removes:
  assumes "distinct (map fst m)" and "distinct (map id' (side_orders m))"
    and "(p, level) \<in> set m" and "ord \<in> set (orders level)" and "id' ord = i"
  shows "i \<notin> id' ` set (side_orders (detach i p m))"
  using assms
proof (induction m)
  case Nil
  then show ?case by simp
next
  case (Cons e m)
  obtain k lv where e: "e = (k, lv)" by (cases e)
  from Cons.prems(2) have dl: "distinct (map id' (orders lv))" and dm: "distinct (map id' (side_orders m))"
    and disj: "id' ` set (orders lv) \<inter> id' ` set (side_orders m) = {}"
    by (auto simp: e side_orders_simps)
  show ?case
  proof (cases "k = p")
    case True
    with Cons.prems(1,3) have lv: "lv = level"
      by (force simp: e)
    with Cons.prems(4,5) have "i \<in> id' ` set (orders lv)" by auto
    with disj have nom: "i \<notin> id' ` set (side_orders m)" by blast
    from Cons.prems(4,5) lv obtain ord' where f: "find (\<lambda>ord. id' ord = i) (orders lv) = Some ord'"
      by (cases "find (\<lambda>ord. id' ord = i) (orders lv)") (auto simp: find_None_iff)
    then have o': "ord' \<in> set (orders lv)" "id' ord' = i"
      by (auto simp: find_Some_iff)
    from remove1_id [OF dl o'(1)] o'(2) have "i \<notin> id' ` set (remove1 ord' (orders lv))"
      by simp
    with nom f True show ?thesis
      by (auto simp: e side_orders_simps Let_def)
  next
    case False
    with Cons.prems(3) have mem: "(p, level) \<in> set m" by (simp add: e)
    with Cons.prems(4,5) have "i \<in> id' ` set (side_orders m)"
      using side_orders_mem by blast
    with disj have "i \<notin> id' ` set (orders lv)" by blast
    moreover from Cons.prems(1) have "distinct (map fst m)" by simp
    from Cons.IH [OF this dm mem Cons.prems(4,5)] have "i \<notin> id' ` set (side_orders (detach i p m))" .
    ultimately show ?thesis
      using False by (auto simp: e side_orders_simps)
  qed
qed

lemma sorted_keys_distinct:
  assumes c: "cmp = cmp_asks \<or> cmp = cmp_bids" and s: "sorted_wrt cmp ks"
  shows "distinct ks"
  using s
proof (induction ks)
  case Nil
  show ?case by simp
next
  case (Cons k ks)
  from c have "\<not> cmp k k" by (auto simp: cmp_asks_def cmp_bids_def)
  with Cons show ?case by auto
qed

lemma resting_orders_sides: "resting_orders b = side_orders (bids b) @ side_orders (asks b)"
  by (simp add: resting_orders_def side_orders_def)

lemma side_orders_level:
  "ord \<in> set (side_orders m) \<Longrightarrow> \<exists>(p, level) \<in> set m. ord \<in> set (orders level)"
  by (auto simp: side_orders_def)

section \<open>Evaluation on concrete orders\<close>

text \<open>The equations that run the model on concrete orders.\<close>

lemmas eval_defs = process_def new_engine_def match_def sweep.simps walk_level.simps
  fill_front_def std_min_def add_def insert_order_def latency_add_def price_stops_def
  cmp_asks_def cmp_bids_def empty_level_def Let_def best_bid_def best_ask_def
  word_sle_eq word_sless_alt

section \<open>The claims\<close>

text \<open>
  C2. Starting from the empty book, after every submit
  (\<^verbatim>\<open>MatchingEngine::process\<close> of one order), whenever both sides are non-empty,
  \<^verbatim>\<open>best_bid()\<close> is strictly below \<^verbatim>\<open>best_ask()\<close>: the book is never crossed at
  rest. The orders, their number and the clock readings are arbitrary.
\<close>

theorem no_cross_at_rest:
  "bids (book (fst (process_all new_engine trades inputs))) \<noteq> [] \<and>
   asks (book (fst (process_all new_engine trades inputs))) \<noteq> [] \<longrightarrow>
   best_bid (book (fst (process_all new_engine trades inputs))) <s
   best_ask (book (fst (process_all new_engine trades inputs)))"
proof
  let ?b = "book (fst (process_all new_engine trades inputs))"
  assume ne: "bids ?b \<noteq> [] \<and> asks ?b \<noteq> []"
  have "book_ok ?b"
    by (rule process_all_book_ok) (rule new_engine_book_ok)
  then have "\<forall>bp \<in> fst ` set (bids ?b). \<forall>ap \<in> fst ` set (asks ?b). bp <s ap"
    by (simp add: book_ok_def)
  moreover from ne have "fst (hd (bids ?b)) \<in> fst ` set (bids ?b)" "fst (hd (asks ?b)) \<in> fst ` set (asks ?b)"
    by simp_all
  ultimately have "fst (hd (bids ?b)) <s fst (hd (asks ?b))"
    by blast
  with ne show "best_bid ?b <s best_ask ?b"
    by (simp add: best_bid_def best_ask_def)
qed

theorem no_cross_at_rest_witness:
  "bids (book (fst (process_all new_engine []
      [(\<lparr>id' = 1, side = Sell, Order.price = 101, Order.qty = 5, ts_ns = 0\<rparr>, 0, 0),
       (\<lparr>id' = 2, side = Buy, Order.price = 100, Order.qty = 5, ts_ns = 0\<rparr>, 0, 0)]))) \<noteq> [] \<and>
   asks (book (fst (process_all new_engine []
      [(\<lparr>id' = 1, side = Sell, Order.price = 101, Order.qty = 5, ts_ns = 0\<rparr>, 0, 0),
       (\<lparr>id' = 2, side = Buy, Order.price = 100, Order.qty = 5, ts_ns = 0\<rparr>, 0, 0)]))) \<noteq> [] \<and>
   best_bid (book (fst (process_all new_engine []
      [(\<lparr>id' = 1, side = Sell, Order.price = 101, Order.qty = 5, ts_ns = 0\<rparr>, 0, 0),
       (\<lparr>id' = 2, side = Buy, Order.price = 100, Order.qty = 5, ts_ns = 0\<rparr>, 0, 0)]))) <s
   best_ask (book (fst (process_all new_engine []
      [(\<lparr>id' = 1, side = Sell, Order.price = 101, Order.qty = 5, ts_ns = 0\<rparr>, 0, 0),
       (\<lparr>id' = 2, side = Buy, Order.price = 100, Order.qty = 5, ts_ns = 0\<rparr>, 0, 0)])))"
  using no_cross_at_rest [of "[]"
      "[(\<lparr>id' = 1, side = Sell, Order.price = 101, Order.qty = 5, ts_ns = 0\<rparr>, 0, 0),
       (\<lparr>id' = 2, side = Buy, Order.price = 100, Order.qty = 5, ts_ns = 0\<rparr>, 0, 0)]"]
  by (simp add: eval_defs)

text \<open>
  C5, as amended. After any sequence of submits from the empty book, every price
  level on either side has a non-empty queue, every resting order has a positive
  quantity, and \<^verbatim>\<open>total_qty\<close> is the sum of the resting quantities as the code
  computes it, in 64-bit arithmetic. When the quantities of the level add up to
  less than \<open>2 ^ 63\<close>, \<^verbatim>\<open>total_qty\<close> is that sum exactly, and it is positive.
\<close>

theorem level_totals:
  assumes "(p, level) \<in> set (bids (book (fst (process_all new_engine trades inputs)))) \<union>
                        set (asks (book (fst (process_all new_engine trades inputs))))"
  shows "orders level \<noteq> [] \<and> (\<forall>ord \<in> set (orders level). 0 <s Order.qty ord) \<and>
    total_qty level = sum_list (map Order.qty (orders level)) \<and>
    ((\<Sum>ord\<leftarrow>orders level. sint (Order.qty ord)) < 2 ^ 63 \<longrightarrow>
       sint (total_qty level) = (\<Sum>ord\<leftarrow>orders level. sint (Order.qty ord)) \<and> 0 <s total_qty level)"
proof -
  let ?b = "book (fst (process_all new_engine trades inputs))"
  have "book_ok ?b"
    by (rule process_all_book_ok) (rule new_engine_book_ok)
  with assms have "\<exists>s. level_ok s p level"
    by (auto simp: book_ok_def side_ok_def)
  then obtain s where ok: "level_ok s p level" ..
  then have ne: "orders level \<noteq> []" and pos: "\<forall>ord \<in> set (orders level). 0 <s Order.qty ord"
    and tot: "total_qty level = sum_list (map Order.qty (orders level))"
    by (simp_all add: level_ok_def order_ok_def)
  have "sint (total_qty level) = (\<Sum>ord\<leftarrow>orders level. sint (Order.qty ord)) \<and> 0 <s total_qty level"
    if small: "(\<Sum>ord\<leftarrow>orders level. sint (Order.qty ord)) < 2 ^ 63"
  proof -
    from pos small have eq: "sint (sum_list (map Order.qty (orders level))) =
        (\<Sum>w\<leftarrow>map Order.qty (orders level). sint w)"
      by (intro sint_sum_list_pos) (simp_all add: comp_def)
    from ne pos have "0 < (\<Sum>w\<leftarrow>map Order.qty (orders level). sint w)"
      by (intro sum_list_sint_pos) simp_all
    with eq tot show ?thesis
      by (simp add: word_sless_alt comp_def)
  qed
  with ne pos tot show ?thesis by blast
qed

theorem level_totals_witness:
  "(100, \<lparr>orders = [\<lparr>id' = 1, side = Sell, Order.price = 100, Order.qty = 6, ts_ns = 0\<rparr>], total_qty = 6\<rparr>)
     \<in> set (bids (book (fst (process_all new_engine []
          [(\<lparr>id' = 1, side = Sell, Order.price = 100, Order.qty = 10, ts_ns = 0\<rparr>, 0, 0),
           (\<lparr>id' = 2, side = Buy, Order.price = 100, Order.qty = 4, ts_ns = 0\<rparr>, 0, 0)])))) \<union>
        set (asks (book (fst (process_all new_engine []
          [(\<lparr>id' = 1, side = Sell, Order.price = 100, Order.qty = 10, ts_ns = 0\<rparr>, 0, 0),
           (\<lparr>id' = 2, side = Buy, Order.price = 100, Order.qty = 4, ts_ns = 0\<rparr>, 0, 0)])))) \<and>
   (\<Sum>ord\<leftarrow>[\<lparr>id' = 1, side = Sell, Order.price = 100, Order.qty = 6, ts_ns = 0\<rparr>]. sint (Order.qty ord)) < 2 ^ 63 \<and>
   sint (6 :: i64) = (\<Sum>ord\<leftarrow>[\<lparr>id' = 1, side = Sell, Order.price = 100, Order.qty = 6, ts_ns = 0\<rparr>]. sint (Order.qty ord)) \<and>
   0 <s (6 :: i64)"
  using level_totals [of 100
      "\<lparr>orders = [\<lparr>id' = 1, side = Sell, Order.price = 100, Order.qty = 6, ts_ns = 0\<rparr>], total_qty = 6\<rparr>"
      "[]"
      "[(\<lparr>id' = 1, side = Sell, Order.price = 100, Order.qty = 10, ts_ns = 0\<rparr>, 0, 0),
        (\<lparr>id' = 2, side = Buy, Order.price = 100, Order.qty = 4, ts_ns = 0\<rparr>, 0, 0)]"]
  by (simp add: eval_defs)

text \<open>
  C5 as stated fails where the quantities of one level exceed the range of
  \<^verbatim>\<open>int64_t\<close>: two resting sells of \<open>2 ^ 62\<close> at one price leave
  \<^verbatim>\<open>total_qty\<close> at \<open>2 ^ 63\<close>, which reads as a negative number.
\<close>

theorem level_total_counterexample:
  "asks (book (fst (process_all new_engine []
      [(\<lparr>id' = 1, side = Sell, Order.price = 100, Order.qty = 4611686018427387904, ts_ns = 0\<rparr>, 0, 0),
       (\<lparr>id' = 2, side = Sell, Order.price = 100, Order.qty = 4611686018427387904, ts_ns = 0\<rparr>, 0, 0)]))) =
     [(100, \<lparr>orders = [\<lparr>id' = 1, side = Sell, Order.price = 100, Order.qty = 4611686018427387904, ts_ns = 0\<rparr>,
                        \<lparr>id' = 2, side = Sell, Order.price = 100, Order.qty = 4611686018427387904, ts_ns = 0\<rparr>],
              total_qty = 9223372036854775808\<rparr>)] \<and>
   \<not> 0 <s (9223372036854775808 :: i64) \<and>
   sint (9223372036854775808 :: i64) \<noteq> sint (4611686018427387904 :: i64) + sint (4611686018427387904 :: i64)"
  by (simp add: eval_defs)

text \<open>
  C1. Mass conservation. For an order with \<^verbatim>\<open>qty > 0\<close> submitted after any sequence
  of submits from the empty book: the trades already in the caller's vector are
  kept, the quantities of the trades emitted by this submit plus the quantity the
  taker is left with add up to the order's original quantity, as integers and
  without overflow; that residual is not negative, every fill is positive, and
  when the residual is positive the taker rests in the book with exactly it
  (otherwise nothing is added).
\<close>

theorem mass_conservation:
  assumes pos: "0 <s Order.qty order"
    and eng: "eng = fst (process_all new_engine trades0 inputs)"
    and m: "match (book eng) order trades = (order', b', trades')"
    and p: "process start end' eng order trades = (eng', out)"
  shows "take (length trades) out = trades \<and>
    (\<Sum>t\<leftarrow>drop (length trades) out. sint (Trade.qty t)) + sint (Order.qty order') = sint (Order.qty order) \<and>
    0 \<le> sint (Order.qty order') \<and>
    (\<forall>t \<in> set (drop (length trades) out). 0 < sint (Trade.qty t)) \<and>
    (if 0 <s Order.qty order'
     then book eng' = add b' order' \<and> order' \<in> set (resting_orders (book eng'))
     else book eng' = b')"
proof -
  have ok: "book_ok (book eng)"
    unfolding eng by (rule process_all_book_ok) (rule new_engine_book_ok)
  from pos have "0 \<le>s Order.qty order" by (simp add: signed.less_imp_le)
  from match_mass [OF ok this m] obtain fills where f: "trades' = trades @ fills"
    and sum: "(\<Sum>t\<leftarrow>fills. sint (Trade.qty t)) + sint (Order.qty order') = sint (Order.qty order)"
    and res: "0 \<le>s Order.qty order'" and fp: "\<forall>t \<in> set fills. 0 <s Trade.qty t"
    by blast
  from p m have out: "out = trades'"
    and b: "book eng' = (if 0 <s Order.qty order' then add b' order' else b')"
    by (auto simp: process_def)
  from b add_rests [of order' b']
  have "if 0 <s Order.qty order'
     then book eng' = add b' order' \<and> order' \<in> set (resting_orders (book eng'))
     else book eng' = b'"
    by simp
  with out f sum res fp show ?thesis
    by (simp add: word_sless_alt word_sle_eq)
qed

theorem mass_conservation_witness:
  "0 <s Order.qty (order_of 2 Buy 100 10) \<and>
   match (book (fst (process_all new_engine [] [(order_of 1 Sell 100 3, 0, 0)]))) (order_of 2 Buy 100 10) [] =
     (order_of 2 Buy 100 7, \<lparr>bids = [], asks = []\<rparr>, [trade_of 2 100 (order_of 1 Sell 100 3) 3]) \<and>
   process 5 9 (fst (process_all new_engine [] [(order_of 1 Sell 100 3, 0, 0)])) (order_of 2 Buy 100 10) [] =
     (\<lparr>book = \<lparr>bids = [(100, \<lparr>orders = [order_of 2 Buy 100 7], total_qty = 7\<rparr>)], asks = []\<rparr>,
       latency = \<lparr>samples = [0, 4], min_sample = 0, max_sample = 4\<rparr>\<rparr>,
      [trade_of 2 100 (order_of 1 Sell 100 3) 3]) \<and>
   (\<Sum>t\<leftarrow>[trade_of 2 100 (order_of 1 Sell 100 3) 3]. sint (Trade.qty t)) + sint (7 :: i64) = sint (10 :: i64) \<and>
   order_of 2 Buy 100 7 \<in> set (resting_orders
     \<lparr>bids = [(100, \<lparr>orders = [order_of 2 Buy 100 7], total_qty = 7\<rparr>)], asks = []\<rparr>)"
proof -
  have h1: "0 <s Order.qty (order_of 2 Buy 100 10)"
    by (simp add: order_of_def word_sless_alt)
  have h3: "match (book (fst (process_all new_engine [] [(order_of 1 Sell 100 3, 0, 0)]))) (order_of 2 Buy 100 10) [] =
     (order_of 2 Buy 100 7, \<lparr>bids = [], asks = []\<rparr>, [trade_of 2 100 (order_of 1 Sell 100 3) 3])"
    by (simp add: eval_defs order_of_def trade_of_def)
  have h4: "process 5 9 (fst (process_all new_engine [] [(order_of 1 Sell 100 3, 0, 0)])) (order_of 2 Buy 100 10) [] =
     (\<lparr>book = \<lparr>bids = [(100, \<lparr>orders = [order_of 2 Buy 100 7], total_qty = 7\<rparr>)], asks = []\<rparr>,
       latency = \<lparr>samples = [0, 4], min_sample = 0, max_sample = 4\<rparr>\<rparr>,
      [trade_of 2 100 (order_of 1 Sell 100 3) 3])"
    by (simp add: eval_defs order_of_def trade_of_def)
  note c = mass_conservation [OF h1 refl h3 h4]
  from c have s: "(\<Sum>t\<leftarrow>[trade_of 2 100 (order_of 1 Sell 100 3) 3]. sint (Trade.qty t)) + sint (7 :: i64) = sint (10 :: i64)"
    by (simp add: order_of_def)
  from c have r: "order_of 2 Buy 100 7 \<in> set (resting_orders
     \<lparr>bids = [(100, \<lparr>orders = [order_of 2 Buy 100 7], total_qty = 7\<rparr>)], asks = []\<rparr>)"
    by (simp add: order_of_def eval_defs)
  from h1 h3 h4 s r show ?thesis
    by (intro conjI)
qed

text \<open>
  C10. Submitting an order with \<^verbatim>\<open>qty <= 0\<close> is a silent no-op on the book:
  \<^verbatim>\<open>process\<close> emits no trade and leaves the book as it was, in every engine
  state. (\<^verbatim>\<open>process\<close> returns \<^verbatim>\<open>void\<close>: there is no error to signal.)
\<close>

theorem nonpositive_qty_is_noop:
  assumes "Order.qty order \<le>s 0"
  shows "snd (process start end' eng order trades) = trades \<and>
    book (fst (process start end' eng order trades)) = book eng"
  using assms by (simp add: process_def match_def signed.not_less)

theorem nonpositive_qty_is_noop_witness:
  "Order.qty (order_of 3 Sell 100 (- 5)) \<le>s 0 \<and>
   snd (process 5 9 (fst (process_all new_engine [] [(order_of 1 Buy 100 3, 0, 0)])) (order_of 3 Sell 100 (- 5)) []) = [] \<and>
   book (fst (process 5 9 (fst (process_all new_engine [] [(order_of 1 Buy 100 3, 0, 0)])) (order_of 3 Sell 100 (- 5)) [])) =
     book (fst (process_all new_engine [] [(order_of 1 Buy 100 3, 0, 0)]))"
proof -
  have h: "Order.qty (order_of 3 Sell 100 (- 5)) \<le>s 0"
    by (simp add: order_of_def word_sle_eq)
  from nonpositive_qty_is_noop [OF h] h show ?thesis
    by simp
qed

text \<open>
  C6, as amended. \<^verbatim>\<open>process\<close> rejects nothing and has no result through which it
  could. An order with \<^verbatim>\<open>qty > 0\<close> is accepted whatever its price and its
  identifier, in every engine state: it trades, or it rests in the book as it
  came. An order with \<^verbatim>\<open>qty <= 0\<close> is dropped without a trace in the book or the
  trades; only the latency sample of the call is recorded.
\<close>

theorem submit_never_rejects:
  "(0 <s Order.qty order \<longrightarrow>
      length trades < length (snd (process start end' eng order trades)) \<or>
      order \<in> set (resting_orders (book (fst (process start end' eng order trades))))) \<and>
   (Order.qty order \<le>s 0 \<longrightarrow>
      process start end' eng order trades =
        (eng\<lparr>latency := latency_add (latency eng) (end' - start)\<rparr>, trades))"
proof (intro conjI impI)
  assume pos: "0 <s Order.qty order"
  obtain order' b' trades' where m: "match (book eng) order trades = (order', b', trades')"
    by (cases "match (book eng) order trades") auto
  define s where "s = (if side order = Buy then Buy else Sell)"
  define opp where "opp = (if side order = Buy then asks (book eng) else bids (book eng))"
  from m pos obtain m' where sw: "sweep s order opp trades = (order', m', trades')"
    by (auto simp: match_def s_def opp_def signed.not_le split: if_splits prod.splits)
  from sweep_no_fill [where s = s and incoming = order and m = opp and trades = trades] sw
  have le: "length trades \<le> length trades'" and same: "length trades' = length trades \<Longrightarrow> order' = order"
    by simp_all
  show "length trades < length (snd (process start end' eng order trades)) \<or>
      order \<in> set (resting_orders (book (fst (process start end' eng order trades))))"
  proof (cases "length trades' = length trades")
    case True
    with same pos m add_rests [of order b'] show ?thesis
      by (simp add: process_def)
  next
    case False
    with le m show ?thesis by (simp add: process_def)
  qed
next
  assume "Order.qty order \<le>s 0"
  then show "process start end' eng order trades =
      (eng\<lparr>latency := latency_add (latency eng) (end' - start)\<rparr>, trades)"
    by (simp add: process_def match_def signed.not_less)
qed

theorem submit_never_rejects_witness:
  "0 <s Order.qty (order_of 7 Buy (- 3) 5) \<and>
   order_of 7 Buy (- 3) 5 \<in> set (resting_orders (book (fst (process 0 0 new_engine (order_of 7 Buy (- 3) 5) [])))) \<and>
   Order.qty (order_of 8 Buy 100 0) \<le>s 0 \<and>
   process 0 0 new_engine (order_of 8 Buy 100 0) [] =
     (new_engine\<lparr>latency := latency_add (latency new_engine) (0 - 0)\<rparr>, [])"
proof -
  have h1: "0 <s Order.qty (order_of 7 Buy (- 3) 5)"
    by (simp add: order_of_def word_sless_alt)
  have h2: "Order.qty (order_of 8 Buy 100 0) \<le>s 0"
    by (simp add: order_of_def)
  have h3: "\<not> length ([] :: Trade list) < length (snd (process 0 0 new_engine (order_of 7 Buy (- 3) 5) []))"
    by (simp add: eval_defs order_of_def)
  from submit_never_rejects [of "order_of 7 Buy (- 3) 5" "[]" 0 0 new_engine]
    submit_never_rejects [of "order_of 8 Buy 100 0" "[]" 0 0 new_engine] h1 h2 h3
  show ?thesis by blast
qed

text \<open>
  C6 as stated fails: an order with a negative price and then an order with the
  same identifier and price zero are both accepted, and both rest in the book.
\<close>

theorem submit_rejects_counterexample:
  "process_all new_engine [] [(order_of 7 Buy (- 3) 5, 0, 0), (order_of 7 Buy 0 2, 0, 0)] =
     (\<lparr>book = \<lparr>bids = [(0, \<lparr>orders = [order_of 7 Buy 0 2], total_qty = 2\<rparr>),
                        (- 3, \<lparr>orders = [order_of 7 Buy (- 3) 5], total_qty = 5\<rparr>)],
               asks = []\<rparr>,
       latency = \<lparr>samples = [0, 0], min_sample = 0, max_sample = 0\<rparr>\<rparr>, [])"
  by (simp add: eval_defs order_of_def)

text \<open>
  C9. \<^verbatim>\<open>match\<close> terminates for every incoming order and every book: the loops
  written as partial functions always return, with the result of \<open>match\<close>. Each
  pass of the inner loop with a live taker either strictly reduces the taker's
  remaining quantity or pops the front maker; the inner loop leaves the level
  empty, to be erased, or the taker without quantity, which ends the outer loop.
\<close>

theorem match_terminates:
  "match_loop b incoming trades = Some (match b incoming trades) \<and>
   (0 <s Order.qty incoming \<longrightarrow>
      (case fill_front incoming p level maker rest trades of
         (incoming', level', trades') \<Rightarrow>
           Order.qty incoming' <s Order.qty incoming \<or> orders level' = rest)) \<and>
   (case walk_level incoming p level trades of
      (incoming', level', trades') \<Rightarrow> orders level' = [] \<or> \<not> 0 <s Order.qty incoming')"
proof (intro conjI impI)
  show "match_loop b incoming trades = Some (match b incoming trades)"
    by (simp add: match_loop_def match_def sweep_loop_total split: prod.splits)
next
  assume live: "0 <s Order.qty incoming"
  show "case fill_front incoming p level maker rest trades of
      (incoming', level', trades') \<Rightarrow> Order.qty incoming' <s Order.qty incoming \<or> orders level' = rest"
  proof (cases "Order.qty maker <s Order.qty incoming \<or> Order.qty maker = Order.qty incoming")
    case True
    then have "std_min (Order.qty incoming) (Order.qty maker) = Order.qty maker"
      by (auto simp: std_min_def)
    then show ?thesis by (simp add: fill_front_def Let_def)
  next
    case False
    then have "std_min (Order.qty incoming) (Order.qty maker) = Order.qty incoming"
      by (auto simp: std_min_def)
    with live show ?thesis by (simp add: fill_front_def Let_def)
  qed
next
  show "case walk_level incoming p level trades of
      (incoming', level', trades') \<Rightarrow> orders level' = [] \<or> \<not> 0 <s Order.qty incoming'"
    using walk_level_exit [of incoming p level trades] by (auto split: prod.splits)
qed

theorem match_terminates_witness:
  "0 <s Order.qty (order_of 2 Buy 100 4) \<and>
   match_loop \<lparr>bids = [], asks = [(100, \<lparr>orders = [order_of 1 Sell 100 10], total_qty = 10\<rparr>)]\<rparr>
       (order_of 2 Buy 100 4) [] =
     Some (order_of 2 Buy 100 0,
           \<lparr>bids = [], asks = [(100, \<lparr>orders = [order_of 1 Sell 100 6], total_qty = 6\<rparr>)]\<rparr>,
           [trade_of 2 100 (order_of 1 Sell 100 10) 4]) \<and>
   (case fill_front (order_of 2 Buy 100 4) 100 \<lparr>orders = [order_of 1 Sell 100 10], total_qty = 10\<rparr>
          (order_of 1 Sell 100 10) [] [] of
      (incoming', level', trades') \<Rightarrow>
        Order.qty incoming' <s Order.qty (order_of 2 Buy 100 4) \<or> orders level' = [])"
proof -
  have h: "0 <s Order.qty (order_of 2 Buy 100 4)"
    by (simp add: order_of_def word_sless_alt)
  have m: "match \<lparr>bids = [], asks = [(100, \<lparr>orders = [order_of 1 Sell 100 10], total_qty = 10\<rparr>)]\<rparr>
       (order_of 2 Buy 100 4) [] =
     (order_of 2 Buy 100 0,
      \<lparr>bids = [], asks = [(100, \<lparr>orders = [order_of 1 Sell 100 6], total_qty = 6\<rparr>)]\<rparr>,
      [trade_of 2 100 (order_of 1 Sell 100 10) 4])"
    by (simp add: eval_defs order_of_def trade_of_def)
  from match_terminates [where
      b = "\<lparr>bids = [], asks = [(100, \<lparr>orders = [order_of 1 Sell 100 10], total_qty = 10\<rparr>)]\<rparr>"
      and incoming = "order_of 2 Buy 100 4" and trades = "[]" and p = 100
      and level = "\<lparr>orders = [order_of 1 Sell 100 10], total_qty = 10\<rparr>"
      and maker = "order_of 1 Sell 100 10" and rest = "[]"] h m
  show ?thesis by simp
qed

text \<open>
  C8, as amended. Two runs from a new engine whose order sequences agree on the
  identifier, side, price and quantity of every order produce the same trades,
  and final books that are equal once the \<^verbatim>\<open>ts_ns\<close> tags of the resting orders are
  erased, whatever the tags and the clock readings. Two runs on the same orders
  (tags included) produce the same trades and the same book, whatever the clock
  readings.
\<close>

theorem determinism:
  "(list_all2 (\<lambda>(a, s, e) (b, s', e'). same_fields a b) xs ys \<longrightarrow>
      snd (process_all new_engine trades xs) = snd (process_all new_engine trades ys) \<and>
      untimed_book (book (fst (process_all new_engine trades xs))) =
      untimed_book (book (fst (process_all new_engine trades ys)))) \<and>
   (map fst xs = map fst ys \<longrightarrow>
      snd (process_all new_engine trades xs) = snd (process_all new_engine trades ys) \<and>
      book (fst (process_all new_engine trades xs)) = book (fst (process_all new_engine trades ys)))"
  using process_all_untimed [of xs ys new_engine new_engine trades]
    process_all_clock [of xs ys new_engine new_engine trades]
  by blast

theorem determinism_witness:
  "list_all2 (\<lambda>(a, s, e) (b, s', e'). same_fields a b)
     [(order_of 1 Sell 100 3, 1, 2), (order_of 2 Buy 100 10, 3, 4)]
     [((order_of 1 Sell 100 3)\<lparr>ts_ns := 7\<rparr>, 10, 20), ((order_of 2 Buy 100 10)\<lparr>ts_ns := 9\<rparr>, 30, 50)] \<and>
   snd (process_all new_engine [] [(order_of 1 Sell 100 3, 1, 2), (order_of 2 Buy 100 10, 3, 4)]) =
   snd (process_all new_engine []
     [((order_of 1 Sell 100 3)\<lparr>ts_ns := 7\<rparr>, 10, 20), ((order_of 2 Buy 100 10)\<lparr>ts_ns := 9\<rparr>, 30, 50)]) \<and>
   untimed_book (book (fst (process_all new_engine [] [(order_of 1 Sell 100 3, 1, 2), (order_of 2 Buy 100 10, 3, 4)]))) =
   untimed_book (book (fst (process_all new_engine []
     [((order_of 1 Sell 100 3)\<lparr>ts_ns := 7\<rparr>, 10, 20), ((order_of 2 Buy 100 10)\<lparr>ts_ns := 9\<rparr>, 30, 50)]))) \<and>
   map fst [(order_of 1 Sell 100 3, 1 :: u64, 2 :: u64), (order_of 2 Buy 100 10, 3, 4)] =
   map fst [(order_of 1 Sell 100 3, 10 :: u64, 20 :: u64), (order_of 2 Buy 100 10, 30, 50)] \<and>
   book (fst (process_all new_engine [] [(order_of 1 Sell 100 3, 1, 2), (order_of 2 Buy 100 10, 3, 4)])) =
   book (fst (process_all new_engine [] [(order_of 1 Sell 100 3, 10, 20), (order_of 2 Buy 100 10, 30, 50)]))"
proof -
  have h1: "list_all2 (\<lambda>(a, s, e) (b, s', e'). same_fields a b)
     [(order_of 1 Sell 100 3, 1 :: u64, 2 :: u64), (order_of 2 Buy 100 10, 3, 4)]
     [((order_of 1 Sell 100 3)\<lparr>ts_ns := 7\<rparr>, 10 :: u64, 20 :: u64), ((order_of 2 Buy 100 10)\<lparr>ts_ns := 9\<rparr>, 30, 50)]"
    by (simp add: same_fields_def order_of_def)
  have h2: "map fst [(order_of 1 Sell 100 3, 1 :: u64, 2 :: u64), (order_of 2 Buy 100 10, 3, 4)] =
      map fst [(order_of 1 Sell 100 3, 10 :: u64, 20 :: u64), (order_of 2 Buy 100 10, 30, 50)]"
    by simp
  from determinism [of "[(order_of 1 Sell 100 3, 1, 2), (order_of 2 Buy 100 10, 3, 4)]"
      "[((order_of 1 Sell 100 3)\<lparr>ts_ns := 7\<rparr>, 10, 20), ((order_of 2 Buy 100 10)\<lparr>ts_ns := 9\<rparr>, 30, 50)]" "[]"]
    determinism [of "[(order_of 1 Sell 100 3, 1, 2), (order_of 2 Buy 100 10, 3, 4)]"
      "[(order_of 1 Sell 100 3, 10, 20), (order_of 2 Buy 100 10, 30, 50)]" "[]"] h1 h2
  show ?thesis by blast
qed

text \<open>
  C8 as stated fails for the book: a resting order keeps its \<^verbatim>\<open>ts_ns\<close> tag, so two
  runs that differ only in a tag end in different books.
\<close>

theorem determinism_counterexample:
  "same_fields (order_of 1 Buy 100 5) ((order_of 1 Buy 100 5)\<lparr>ts_ns := 7\<rparr>) \<and>
   book (fst (process_all new_engine [] [(order_of 1 Buy 100 5, 0, 0)])) \<noteq>
   book (fst (process_all new_engine [] [((order_of 1 Buy 100 5)\<lparr>ts_ns := 7\<rparr>, 0, 0)]))"
  by (simp add: eval_defs order_of_def same_fields_def)

text \<open>
  C3. Price-time priority, for any book whose maps are ordered by their
  comparators and any taker. Let \<open>Q\<close> be the queue of the opposite side: levels
  best first, each level in insertion order. The trades of \<^verbatim>\<open>match\<close> are against
  \<open>Q\<close> position by position: trade \<open>j\<close> has maker \<open>Q ! j\<close> at the key of its level, and
  when it is emitted every earlier order of \<open>Q\<close> has been filled for its whole
  quantity by the trade of its own position. An order with a strictly better
  price than another is earlier in \<open>Q\<close>; within a level the earlier order is the
  one inserted first. The orders filled completely have left the book; only the
  last maker touched may stay, at the front, with what is left of it.
\<close>

theorem price_time_priority:
  assumes sa: "sorted_wrt cmp_asks (map fst (asks b))" and sb: "sorted_wrt cmp_bids (map fst (bids b))"
    and m: "match b incoming trades = (incoming', b', trades')"
  shows "let Q = queue_of (opposite b (side incoming)); fills = drop (length trades) trades' in
    take (length trades) trades' = trades \<and> length fills \<le> length Q \<and>
    (\<forall>j < length fills.
       taker_id (fills ! j) = id' incoming \<and> maker_id (fills ! j) = id' (snd (Q ! j)) \<and>
       Trade.price (fills ! j) = fst (Q ! j) \<and>
       (\<forall>i < j. Trade.qty (fills ! i) = Order.qty (snd (Q ! i)))) \<and>
    (\<forall>i < length Q. \<forall>j < length Q. better_price (side incoming) (fst (Q ! i)) (fst (Q ! j)) \<longrightarrow> i < j) \<and>
    (queue_of (opposite b' (side incoming)) = drop (length fills) Q \<or>
     fills \<noteq> [] \<and>
     queue_of (opposite b' (side incoming)) =
       (fst (Q ! (length fills - 1)),
        (snd (Q ! (length fills - 1)))
          \<lparr>Order.qty := Order.qty (snd (Q ! (length fills - 1))) - Trade.qty (last fills)\<rparr>)
       # drop (length fills) Q)"
proof -
  define Q where "Q = queue_of (opposite b (side incoming))"
  from match_consumes [OF m] obtain fills where t: "trades' = trades @ fills"
    and c: "consumes (id' incoming) Q fills (queue_of (opposite b' (side incoming)))"
    unfolding Q_def by blast
  note ix = consumes_index [OF c]
  have fills: "drop (length trades) trades' = fills" "take (length trades) trades' = trades"
    by (simp_all add: t)
  have p1: "\<forall>j < length fills.
       taker_id (fills ! j) = id' incoming \<and> maker_id (fills ! j) = id' (snd (Q ! j)) \<and>
       Trade.price (fills ! j) = fst (Q ! j) \<and>
       (\<forall>i < j. Trade.qty (fills ! i) = Order.qty (snd (Q ! i)))"
  proof (intro allI impI conjI)
    fix j assume j: "j < length fills"
    from ix(2) [OF j] show "taker_id (fills ! j) = id' incoming" "maker_id (fills ! j) = id' (snd (Q ! j))"
      "Trade.price (fills ! j) = fst (Q ! j)" by simp_all
    fix i assume "i < j"
    with j have "i < length fills" "Suc i < length fills" by simp_all
    with ix(2) [of i] show "Trade.qty (fills ! i) = Order.qty (snd (Q ! i))" by simp
  qed
  have p2: "\<forall>i < length Q. \<forall>j < length Q. better_price (side incoming) (fst (Q ! i)) (fst (Q ! j)) \<longrightarrow> i < j"
  proof (cases "side incoming")
    case Buy
    from queue_of_sorted [of cmp_asks, OF _ sa] have "sorted_wrt (\<lambda>a b. \<not> cmp_asks (fst b) (fst a)) Q"
      by (simp add: Q_def opposite_def Buy)
    from sorted_wrt_nth_less [where R = "\<lambda>a b. cmp_asks (fst a) (fst b)", OF this] show ?thesis
      by (auto simp: better_price_def Buy cmp_asks_def)
  next
    case Sell
    from queue_of_sorted [of cmp_bids, OF _ sb] have "sorted_wrt (\<lambda>a b. \<not> cmp_bids (fst b) (fst a)) Q"
      by (simp add: Q_def opposite_def Sell)
    from sorted_wrt_nth_less [where R = "\<lambda>a b. cmp_bids (fst a) (fst b)", OF this] show ?thesis
      by (auto simp: better_price_def Sell cmp_bids_def)
  qed
  from ix(1) ix(3) p1 p2 fills show ?thesis
    unfolding Let_def Q_def [symmetric] by simp
qed

theorem price_time_priority_witness:
  "sorted_wrt cmp_asks (map fst (asks example_book)) \<and>
   sorted_wrt cmp_bids (map fst (bids example_book)) \<and>
   match example_book (order_of 4 Buy 101 11) [] =
     (order_of 4 Buy 101 0,
      \<lparr>bids = [], asks = [(101, \<lparr>orders = [order_of 3 Sell 101 4], total_qty = 4\<rparr>)]\<rparr>,
      [trade_of 4 100 (order_of 1 Sell 100 3) 3, trade_of 4 100 (order_of 2 Sell 100 7) 7,
       trade_of 4 101 (order_of 3 Sell 101 5) 1]) \<and>
   queue_of (opposite example_book Buy) =
     [(100, order_of 1 Sell 100 3), (100, order_of 2 Sell 100 7), (101, order_of 3 Sell 101 5)] \<and>
   better_price Buy 100 101 \<and>
   maker_id (trade_of 4 101 (order_of 3 Sell 101 5) 1) = id' (order_of 3 Sell 101 5) \<and>
   Trade.qty (trade_of 4 100 (order_of 1 Sell 100 3) 3) = Order.qty (order_of 1 Sell 100 3) \<and>
   Trade.qty (trade_of 4 100 (order_of 2 Sell 100 7) 7) = Order.qty (order_of 2 Sell 100 7) \<and>
   queue_of (opposite \<lparr>bids = [], asks = [(101, \<lparr>orders = [order_of 3 Sell 101 4], total_qty = 4\<rparr>)]\<rparr> Buy) =
     [(101, (order_of 3 Sell 101 5)\<lparr>Order.qty := 5 - 1\<rparr>)]"
proof -
  have h1: "sorted_wrt cmp_asks (map fst (asks example_book))"
    by (simp add: example_book_def cmp_asks_def word_sless_alt)
  have h2: "sorted_wrt cmp_bids (map fst (bids example_book))"
    by (simp add: example_book_def)
  have h3: "match example_book (order_of 4 Buy 101 11) [] =
     (order_of 4 Buy 101 0,
      \<lparr>bids = [], asks = [(101, \<lparr>orders = [order_of 3 Sell 101 4], total_qty = 4\<rparr>)]\<rparr>,
      [trade_of 4 100 (order_of 1 Sell 100 3) 3, trade_of 4 100 (order_of 2 Sell 100 7) 7,
       trade_of 4 101 (order_of 3 Sell 101 5) 1])"
    by (simp add: example_book_def eval_defs order_of_def trade_of_def)
  have h4: "queue_of (opposite example_book Buy) =
     [(100, order_of 1 Sell 100 3), (100, order_of 2 Sell 100 7), (101, order_of 3 Sell 101 5)]"
    by (simp add: example_book_def queue_of_def opposite_def)
  have h5: "better_price Buy 100 101"
    by (simp add: better_price_def word_sless_alt)
  from price_time_priority [OF h1 h2 h3] h1 h2 h3 h4 h5 show ?thesis
    by (simp add: order_of_def trade_of_def queue_of_def opposite_def)
qed

text \<open>
  C4. Execution price, for a book reached by submits from the empty book and any
  taker: every trade emitted by \<^verbatim>\<open>match\<close> is against the order of its position in
  the opposite queue, its price is that maker's resting price, and that price
  lies between the maker's and the taker's prices: not above the taker's limit
  for a Buy taker, not below it for a Sell taker. The taker's price enters only
  the test that stops the loop.
\<close>

theorem execution_price:
  assumes b: "b = book (fst (process_all new_engine trades0 inputs))"
    and m: "match b incoming trades = (incoming', b', trades')"
  shows "let Q = queue_of (opposite b (side incoming)); fills = drop (length trades) trades' in
    length fills \<le> length Q \<and>
    (\<forall>j < length fills.
       maker_id (fills ! j) = id' (snd (Q ! j)) \<and>
       Trade.price (fills ! j) = Order.price (snd (Q ! j)) \<and>
       (case side incoming of
          Buy \<Rightarrow> Order.price (snd (Q ! j)) \<le>s Trade.price (fills ! j) \<and>
                 Trade.price (fills ! j) \<le>s Order.price incoming
        | Sell \<Rightarrow> Order.price incoming \<le>s Trade.price (fills ! j) \<and>
                  Trade.price (fills ! j) \<le>s Order.price (snd (Q ! j))))"
proof -
  define Q where "Q = queue_of (opposite b (side incoming))"
  have ok: "book_ok b"
    unfolding b by (rule process_all_book_ok) (rule new_engine_book_ok)
  from match_consumes [OF m] obtain fills where t: "trades' = trades @ fills"
    and c: "consumes (id' incoming) Q fills (queue_of (opposite b' (side incoming)))"
    unfolding Q_def by blast
  note ix = consumes_index [OF c]
  have fills: "drop (length trades) trades' = fills"
    by (simp add: t)
  have "maker_id (fills ! j) = id' (snd (Q ! j)) \<and>
       Trade.price (fills ! j) = Order.price (snd (Q ! j)) \<and>
       (case side incoming of
          Buy \<Rightarrow> Order.price (snd (Q ! j)) \<le>s Trade.price (fills ! j) \<and>
                 Trade.price (fills ! j) \<le>s Order.price incoming
        | Sell \<Rightarrow> Order.price incoming \<le>s Trade.price (fills ! j) \<and>
                  Trade.price (fills ! j) \<le>s Order.price (snd (Q ! j)))" if j: "j < length fills" for j
  proof -
    from j ix(1) have "Q ! j \<in> set Q" by simp
    then have mem: "(fst (Q ! j), snd (Q ! j)) \<in> set Q" by simp
    have "Order.price (snd (Q ! j)) = fst (Q ! j)"
    proof (cases "side incoming")
      case Buy
      from ok have "side_ok cmp_asks Sell (asks b)" by (simp add: book_ok_def)
      from queue_of_prices [OF this] mem show ?thesis by (simp add: Q_def opposite_def Buy)
    next
      case Sell
      from ok have "side_ok cmp_bids Buy (bids b)" by (simp add: book_ok_def)
      from queue_of_prices [OF this] mem show ?thesis by (simp add: Q_def opposite_def Sell)
    qed
    with ix(2) [OF j] have eq: "maker_id (fills ! j) = id' (snd (Q ! j))"
      "Trade.price (fills ! j) = Order.price (snd (Q ! j))" by simp_all
    from j have "fills ! j \<in> set fills" by simp
    with match_fills_cross [OF m] fills
    have "\<not> price_stops (side incoming) (Order.price incoming) (Trade.price (fills ! j))"
      by simp
    with eq show ?thesis
      by (cases "side incoming") (simp_all add: price_stops_def signed.not_less)
  qed
  with ix(1) show ?thesis
    unfolding Let_def Q_def [symmetric] fills by blast
qed

theorem execution_price_witness:
  "match (book (fst (process_all new_engine []
        [(order_of 1 Sell 100 5, 0, 0), (order_of 2 Sell 101 5, 0, 0)]))) (order_of 3 Buy 101 8) [] =
     (order_of 3 Buy 101 0,
      \<lparr>bids = [], asks = [(101, \<lparr>orders = [order_of 2 Sell 101 2], total_qty = 2\<rparr>)]\<rparr>,
      [trade_of 3 100 (order_of 1 Sell 100 5) 5, trade_of 3 101 (order_of 2 Sell 101 5) 3]) \<and>
   queue_of (opposite (book (fst (process_all new_engine []
        [(order_of 1 Sell 100 5, 0, 0), (order_of 2 Sell 101 5, 0, 0)]))) Buy) =
     [(100, order_of 1 Sell 100 5), (101, order_of 2 Sell 101 5)] \<and>
   Trade.price (trade_of 3 100 (order_of 1 Sell 100 5) 5) = Order.price (order_of 1 Sell 100 5) \<and>
   Order.price (order_of 1 Sell 100 5) \<le>s Trade.price (trade_of 3 100 (order_of 1 Sell 100 5) 5) \<and>
   Trade.price (trade_of 3 100 (order_of 1 Sell 100 5) 5) \<le>s Order.price (order_of 3 Buy 101 8)"
proof -
  have h: "match (book (fst (process_all new_engine []
        [(order_of 1 Sell 100 5, 0, 0), (order_of 2 Sell 101 5, 0, 0)]))) (order_of 3 Buy 101 8) [] =
     (order_of 3 Buy 101 0,
      \<lparr>bids = [], asks = [(101, \<lparr>orders = [order_of 2 Sell 101 2], total_qty = 2\<rparr>)]\<rparr>,
      [trade_of 3 100 (order_of 1 Sell 100 5) 5, trade_of 3 101 (order_of 2 Sell 101 5) 3])"
    by (simp add: eval_defs order_of_def trade_of_def)
  have q: "queue_of (opposite (book (fst (process_all new_engine []
        [(order_of 1 Sell 100 5, 0, 0), (order_of 2 Sell 101 5, 0, 0)]))) Buy) =
     [(100, order_of 1 Sell 100 5), (101, order_of 2 Sell 101 5)]"
    by (simp add: eval_defs order_of_def queue_of_def opposite_def)
  from execution_price [OF refl h] h q show ?thesis
    by (simp add: order_of_def trade_of_def word_sle_eq)
qed

text \<open>
  C7, on \<^verbatim>\<open>cancel\<close> as the spec describes it (the source has none). For a book
  with its index in order: cancelling an identifier with no resting order
  returns not-found and changes nothing; cancelling a resting identifier returns
  success and leaves no resting order with that identifier, and cancelling it
  again at once returns not-found and changes nothing.
\<close>

theorem cancel_idempotence:
  assumes ok: "index_ok ib"
  shows "(i \<notin> id' ` set (resting_orders (levels ib)) \<longrightarrow> cancel ib i = (False, ib)) \<and>
    (i \<in> id' ` set (resting_orders (levels ib)) \<longrightarrow>
       fst (cancel ib i) \<and>
       i \<notin> id' ` set (resting_orders (levels (snd (cancel ib i)))) \<and>
       cancel (snd (cancel ib i)) i = (False, snd (cancel ib i)))"
proof (intro conjI impI)
  assume "i \<notin> id' ` set (resting_orders (levels ib))"
  with ok have "index ib i = None"
    by (auto simp: index_ok_def)
  then show "cancel ib i = (False, ib)"
    by (simp add: cancel_def)
next
  assume "i \<in> id' ` set (resting_orders (levels ib))"
  then obtain ord where ord: "ord \<in> set (resting_orders (levels ib))" "id' ord = i"
    by auto
  let ?b = "levels ib"
  from ok ord have ix: "index ib i = Some \<lparr>h_side = side ord, h_price = Order.price ord\<rparr>"
    by (auto simp: index_ok_def)
  from ok have bok: "book_ok ?b" and dist: "distinct (map id' (side_orders (bids ?b) @ side_orders (asks ?b)))"
    by (simp_all add: index_ok_def resting_orders_sides)
  from dist have db: "distinct (map id' (side_orders (bids ?b)))"
    and da: "distinct (map id' (side_orders (asks ?b)))"
    and disj: "id' ` set (side_orders (bids ?b)) \<inter> id' ` set (side_orders (asks ?b)) = {}"
    by auto
  from bok have kb: "distinct (map fst (bids ?b))" and ka: "distinct (map fst (asks ?b))"
    by (auto simp: book_ok_def side_ok_def intro: sorted_keys_distinct [of cmp_bids] sorted_keys_distinct [of cmp_asks])
  have gone: "i \<notin> id' ` set (resting_orders (levels (snd (cancel ib i))))"
  proof (cases "ord \<in> set (side_orders (bids ?b))")
    case True
    then obtain p level where l: "(p, level) \<in> set (bids ?b)" "ord \<in> set (orders level)"
      using side_orders_level by blast
    with bok have so: "side ord = Buy" "Order.price ord = p"
      by (auto simp: book_ok_def side_ok_def level_ok_def order_ok_def)
    from True ord(2) disj have "i \<notin> id' ` set (side_orders (asks ?b))" by blast
    moreover from detach_removes [OF kb db l ord(2)]
    have "i \<notin> id' ` set (side_orders (detach i p (bids ?b)))" .
    ultimately show ?thesis
      using ix so by (simp add: cancel_def resting_orders_sides image_Un)
  next
    case False
    with ord(1) have a: "ord \<in> set (side_orders (asks ?b))"
      by (simp add: resting_orders_sides)
    then obtain p level where l: "(p, level) \<in> set (asks ?b)" "ord \<in> set (orders level)"
      using side_orders_level by blast
    with bok have so: "side ord = Sell" "Order.price ord = p"
      by (auto simp: book_ok_def side_ok_def level_ok_def order_ok_def)
    from a ord(2) disj have "i \<notin> id' ` set (side_orders (bids ?b))" by blast
    moreover from detach_removes [OF ka da l ord(2)]
    have "i \<notin> id' ` set (side_orders (detach i p (asks ?b)))" .
    ultimately show ?thesis
      using ix so by (simp add: cancel_def resting_orders_sides image_Un)
  qed
  from ix show "fst (cancel ib i)"
    by (simp add: cancel_def)
  from gone show "i \<notin> id' ` set (resting_orders (levels (snd (cancel ib i))))" .
  from ix have "index (snd (cancel ib i)) i = None"
    by (simp add: cancel_def)
  then show "cancel (snd (cancel ib i)) i = (False, snd (cancel ib i))"
    by (simp add: cancel_def)
qed

theorem cancel_idempotence_witness:
  "index_ok example_indexed \<and>
   cancel example_indexed 3 = (False, example_indexed) \<and>
   fst (cancel example_indexed 1) \<and>
   levels (snd (cancel example_indexed 1)) =
     \<lparr>bids = [], asks = [(100, \<lparr>orders = [order_of 2 Sell 100 5], total_qty = 5\<rparr>)]\<rparr> \<and>
   cancel (snd (cancel example_indexed 1)) 1 = (False, snd (cancel example_indexed 1))"
proof -
  have ids: "resting_orders (levels example_indexed) = [order_of 1 Sell 100 5, order_of 2 Sell 100 5]"
    by (simp add: example_indexed_def resting_orders_def)
  have ok: "index_ok example_indexed"
    unfolding index_ok_def ids
    by (auto simp: example_indexed_def book_ok_def side_ok_def level_ok_def order_ok_def order_of_def
        word_sless_alt)
  have h3: "3 \<notin> id' ` set (resting_orders (levels example_indexed))"
    by (simp add: ids order_of_def)
  have h1: "1 \<in> id' ` set (resting_orders (levels example_indexed))"
    by (simp add: ids order_of_def)
  have l: "levels (snd (cancel example_indexed 1)) =
     \<lparr>bids = [], asks = [(100, \<lparr>orders = [order_of 2 Sell 100 5], total_qty = 5\<rparr>)]\<rparr>"
    by (simp add: cancel_def example_indexed_def order_of_def)
  from cancel_idempotence [OF ok, of 3] cancel_idempotence [OF ok, of 1] ok h1 h3 l
  show ?thesis by blast
qed

end
